theory Spec2Isabelle
  imports Main "HOL-Library.Multiset"
begin

section \<open>The observer library: subjects, owners, handles and blockers\<close>

text \<open>
  A shallow embedding of \<^verbatim>\<open>src/observer.h\<close> (namespace \<^verbatim>\<open>pg\<close>). Objects are
  named by their addresses (natural numbers); the world is a record of the objects that
  are alive. Calling through a pointer or reference to an object that is no longer
  alive, erasing the end iterator of a set and deleting twice are undefined behaviour in
  C++: the model returns them as errors.
\<close>

subsection \<open>\<^verbatim>\<open>pg_detail::get_first\<close> and \<^verbatim>\<open>get_first_n\<close>\<close>

datatype error =
    UseAfterFree          \<comment> \<open>a call through a pointer or reference to a destroyed object\<close>
  | EraseEnd              \<comment> \<open>\<^verbatim>\<open>std::set::erase\<close> of the end iterator\<close>
  | DoubleFree            \<comment> \<open>\<^verbatim>\<open>delete\<close> of storage that is not allocated\<close>
  | OutsideBuffer         \<comment> \<open>a read of a slot that the buffer of the vector does not have\<close>
  | StaticAssert          \<comment> \<open>\<^verbatim>\<open>static_assert( N <= sizeof...( args ) )\<close> fails: rejected by the compiler\<close>
  | TupleIndex            \<comment> \<open>\<^verbatim>\<open>std::get< N >\<close> past the tuple: rejected by the compiler\<close>
  | IllTyped              \<comment> \<open>a call whose argument count is not the signature's: rejected by the compiler\<close>
  | BadAddress            \<comment> \<open>an address for a new object that a live object already has\<close>
  | OutOfFuel             \<comment> \<open>the recursion budget of the model ran out\<close>

text \<open>
  \<^verbatim>\<open>get_first< N >( t )\<close> is the tuple of the elements \<open>0 .. N\<close> of \<open>t\<close>, and the empty
  tuple for \<open>N = -1\<close>. The argument \<open>k\<close> below is \<open>N + 1\<close>, so that the template's
  recursion on \<open>N - 1\<close> down to \<open>-1\<close> is primitive recursion down to \<open>0\<close>.
\<close>

fun get_first :: "nat \<Rightarrow> 'a list \<Rightarrow> error + 'a list" where
  "get_first 0 t = Inr []"
| "get_first (Suc n) t =
     (case get_first n t of
        Inl e \<Rightarrow> Inl e
      | Inr pre \<Rightarrow> if n < length t then Inr (pre @ [t ! n]) else Inl TupleIndex)"

definition get_first_n :: "nat \<Rightarrow> 'a list \<Rightarrow> error + 'a list" where
  "get_first_n n args = (if n \<le> length args then get_first n args else Inl StaticAssert)"

subsection \<open>The dispatch sequence of a subject\<close>

text \<open>
  \<^verbatim>\<open>std::find_if\<close> returns the position of the first element that satisfies the
  predicate, and the end position (the length) when there is none.
\<close>

fun find_if :: "('a \<Rightarrow> bool) \<Rightarrow> 'a list \<Rightarrow> nat" where
  "find_if P [] = 0"
| "find_if P (x # xs) = (if P x then 0 else Suc (find_if P xs))"

definition erase :: "'a list \<Rightarrow> nat \<Rightarrow> 'a list" where
  "erase v i = take i v @ drop (Suc i) v"

text \<open>
  \<^verbatim>\<open>subject::remove_observer\<close>: the search runs over the reverse iterators, so position
  \<open>r\<close> of the search is the element \<open>length v - 1 - r\<close> of the vector, and
  \<^verbatim>\<open>( ++it_find ).base()\<close> is the forward iterator of that element.
\<close>

definition remove_observer :: "nat \<Rightarrow> nat list \<Rightarrow> nat list" where
  "remove_observer o' v =
     (let it_find = find_if (\<lambda>o1. o1 = o') (rev v)
      in if it_find \<noteq> length v then erase v (length v - Suc it_find) else v)"

text \<open>
  \<^verbatim>\<open>std::vector::erase\<close> moves the elements behind the erased one down by one slot and
  ends the vector one slot earlier. The slot that held the last element is then the
  first one past the end, and still holds that element's value: a loop that was given
  the old end reads it. \<open>left_past_end o' v p\<close> is what the slots past the end hold after
  \<^verbatim>\<open>remove_observer\<close>, nearest first, when they held \<open>p\<close> before.
\<close>

definition left_past_end :: "nat \<Rightarrow> nat list \<Rightarrow> nat list \<Rightarrow> nat list" where
  "left_past_end o' v p =
     (let it_find = find_if (\<lambda>o1. o1 = o') (rev v)
      in if it_find \<noteq> length v then last v # p else p)"

subsection \<open>Objects and the world\<close>

text \<open>
  A subject publishes a tuple of arguments; the model keeps their values in a list and
  the number of the subject's template parameters in \<open>sizeof_A\<close>.
\<close>

datatype arg = IntArg int | StrArg string | BoolArg bool

text \<open>
  The callables that are connected (the template parameter \<open>F\<close> of the callable
  overload of \<^verbatim>\<open>connect\<close>). Each has a declared arity, which is what
  \<^verbatim>\<open>function_arity< F >\<close> computes from its signature. Their bodies:
  \<^item> \<open>Plain n c\<close>: the callable \<open>c\<close>, which touches nothing of the library;
  \<^item> \<open>Forward n s2\<close>: the lambda of the subject-to-subject overload,
    \<^verbatim>\<open>[&]( As2 &&... args ){ s2.notify( std::forward< As2 >( args )... ); }\<close>;
  \<^item> \<open>Disconnecting n ow h\<close>: a callable that calls \<^verbatim>\<open>ow.disconnect( h )\<close>.
\<close>

datatype callable =
    Plain nat nat
  | Forward nat nat
  | Disconnecting nat nat nat

fun function_arity :: "callable \<Rightarrow> nat" where
  "function_arity (Plain n c) = n"
| "function_arity (Forward n s2) = n"
| "function_arity (Disconnecting n ow h) = n"

text \<open>
  The class \<^verbatim>\<open>observer\<close> that \<^verbatim>\<open>connect\<close> declares: the \<^verbatim>\<open>observer_handle\<close> part is
  \<open>m_owner\<close>, the \<^verbatim>\<open>abstract_observer\<close> part is \<open>m_subject\<close>.
\<close>

record observer =
  m_owner :: nat
  m_subject :: nat
  m_function :: callable

record subject =
  sizeof_A :: nat
  m_observers :: "nat list"

text \<open>
  A \<^verbatim>\<open>subject_blocker\<close>: \<open>blocked_subject\<close> is its member \<^verbatim>\<open>m_subject\<close>,
  \<open>blocked_observers\<close> its member \<^verbatim>\<open>m_observers\<close>, and \<open>blocked_past_end\<close> what the
  buffer of that vector holds past its end.
\<close>

record blocker =
  blocked_subject :: nat
  blocked_observers :: "nat list"
  blocked_past_end :: "nat list"

text \<open>
  The world: the live subjects, the live owners (the \<^verbatim>\<open>std::set\<close> of an owner is the
  list of its handles in ascending order of address), the allocated observers, the live
  blockers, and for every subject what the buffer of its vector holds in the slots past
  the end of the vector, nearest first (\<open>past_end\<close>; it is read for live subjects only,
  and a new subject begins with none). Two records are kept for the
  statements only: \<open>trace\<close> lists the calls \<^verbatim>\<open>std::apply\<close> made (the handle and the
  arguments its target received), \<open>deleted\<close> counts for every observer how often it was
  deleted.
\<close>

record world =
  subjects :: "nat \<rightharpoonup> subject"
  owners :: "nat \<rightharpoonup> nat list"
  heap :: "nat \<rightharpoonup> observer"
  blockers :: "nat \<rightharpoonup> blocker"
  past_end :: "nat \<Rightarrow> nat list"
  trace :: "(nat \<times> arg list) list"
  deleted :: "nat multiset"

definition empty_world :: world where
  "empty_world =
     \<lparr>subjects = Map.empty, owners = Map.empty, heap = Map.empty, blockers = Map.empty,
      past_end = (\<lambda>s. []), trace = [], deleted = {#}\<rparr>"

definition new_subject :: "world \<Rightarrow> nat \<Rightarrow> nat \<Rightarrow> error + world" where
  "new_subject st s n =
     (case subjects st s of
        Some _ \<Rightarrow> Inl BadAddress
      | None \<Rightarrow>
          Inr (st\<lparr>subjects := (subjects st)(s \<mapsto> \<lparr>sizeof_A = n, m_observers = []\<rparr>),
                  past_end := (past_end st)(s := [])\<rparr>))"

definition new_owner :: "world \<Rightarrow> nat \<Rightarrow> error + world" where
  "new_owner st ow =
     (case owners st ow of
        Some _ \<Rightarrow> Inl BadAddress
      | None \<Rightarrow> Inr (st\<lparr>owners := (owners st)(ow \<mapsto> [])\<rparr>))"

fun for_each :: "(world \<Rightarrow> nat \<Rightarrow> error + world) \<Rightarrow> nat list \<Rightarrow> world \<Rightarrow> error + world" where
  "for_each f [] st = Inr st"
| "for_each f (x # xs) st =
     (case f st x of Inl e \<Rightarrow> Inl e | Inr st' \<Rightarrow> for_each f xs st')"

subsection \<open>Removal\<close>

text \<open>The destructor of a \<^verbatim>\<open>std::unique_ptr< observer_handle >\<close> that holds \<open>h\<close>.\<close>

definition delete_handle :: "world \<Rightarrow> nat \<Rightarrow> error + world" where
  "delete_handle st h =
     (case heap st h of
        None \<Rightarrow> Inl DoubleFree
      | Some _ \<Rightarrow> Inr (st\<lparr>heap := (heap st)(h := None), deleted := deleted st + {#h#}\<rparr>))"

text \<open>
  \<^verbatim>\<open>observer_owner::remove_observer\<close>: \<^verbatim>\<open>find\<close>, then \<^verbatim>\<open>erase\<close> of what it returned, with
  no test for the end iterator. Erasing the element destroys its \<^verbatim>\<open>unique_ptr\<close>.
\<close>

definition owner_remove_observer :: "world \<Rightarrow> nat \<Rightarrow> nat \<Rightarrow> error + world" where
  "owner_remove_observer st ow h =
     (case owners st ow of
        None \<Rightarrow> Inl UseAfterFree
      | Some os \<Rightarrow>
          if h \<in> set os
          then delete_handle (st\<lparr>owners := (owners st)(ow \<mapsto> remove1 h os)\<rparr>) h
          else Inl EraseEnd)"

text \<open>\<^verbatim>\<open>observer_handle::remove_from_owner\<close>.\<close>

definition remove_from_owner :: "world \<Rightarrow> nat \<Rightarrow> error + world" where
  "remove_from_owner st h =
     (case heap st h of
        None \<Rightarrow> Inl UseAfterFree
      | Some ob \<Rightarrow> owner_remove_observer st (m_owner ob) h)"

text \<open>\<^verbatim>\<open>abstract_observer::remove_from_subject\<close>, which calls \<^verbatim>\<open>subject::remove_observer\<close>.\<close>

definition remove_from_subject :: "world \<Rightarrow> nat \<Rightarrow> error + world" where
  "remove_from_subject st h =
     (case heap st h of
        None \<Rightarrow> Inl UseAfterFree
      | Some ob \<Rightarrow>
          (case subjects st (m_subject ob) of
             None \<Rightarrow> Inl UseAfterFree
           | Some sub \<Rightarrow>
               Inr (st\<lparr>subjects := (subjects st)
                      (m_subject ob \<mapsto> sub\<lparr>m_observers := remove_observer h (m_observers sub)\<rparr>),
                    past_end := (past_end st)
                      (m_subject ob :=
                         left_past_end h (m_observers sub) (past_end st (m_subject ob)))\<rparr>)))"

subsection \<open>\<^verbatim>\<open>observer_owner::connect\<close> and \<^verbatim>\<open>disconnect\<close>\<close>

text \<open>
  \<^verbatim>\<open>subject::add_observer\<close>: \<^verbatim>\<open>push_back\<close> writes the first slot past the end, or moves the
  vector to a new buffer when there is none; either way what was in that slot is gone.
\<close>

definition add_observer :: "world \<Rightarrow> nat \<Rightarrow> nat \<Rightarrow> error + world" where
  "add_observer st s h =
     (case subjects st s of
        None \<Rightarrow> Inl UseAfterFree
      | Some sub \<Rightarrow>
          Inr (st\<lparr>subjects := (subjects st)(s \<mapsto> sub\<lparr>m_observers := m_observers sub @ [h]\<rparr>),
                  past_end := (past_end st)(s := tl (past_end st s))\<rparr>))"

text \<open>
  The private overload of \<^verbatim>\<open>connect\<close>, which takes the \<^verbatim>\<open>unique_ptr\<close> of the new observer
  at address \<open>a\<close>: it registers the raw pointer with the subject, moves the \<^verbatim>\<open>unique_ptr\<close>
  into the owner's set, and returns the raw pointer. The set is kept in ascending order
  of address (\<open>insort\<close>). A set that already holds the address of the new observer
  cannot be: the model refuses that input.
\<close>

definition connect_unique :: "world \<Rightarrow> nat \<Rightarrow> nat \<Rightarrow> nat \<Rightarrow> error + (nat \<times> world)" where
  "connect_unique st ow s a =
     (case add_observer st s a of
        Inl e \<Rightarrow> Inl e
      | Inr st' \<Rightarrow>
          (case owners st' ow of
             None \<Rightarrow> Inl UseAfterFree
           | Some os \<Rightarrow>
               if a \<in> set os then Inl BadAddress
               else Inr (a, st'\<lparr>owners := (owners st')(ow \<mapsto> insort a os)\<rparr>)))"

text \<open>
  The callable overload of \<^verbatim>\<open>connect\<close>. (The overload for an instance and a member
  function declares the same observer on the member function's parameters, and is the
  same operation on a plain callable of that arity.) The class it declares instantiates
  \<^verbatim>\<open>get_first_n< function_arity< F >{} >\<close> on the subject's parameters, whose
  \<^verbatim>\<open>static_assert\<close> rejects a callable of greater arity when the call of \<^verbatim>\<open>connect\<close> is
  compiled. \<open>a\<close> is the address \<^verbatim>\<open>std::make_unique\<close> returns: one that no allocated
  observer has.
\<close>

definition connect_function :: "world \<Rightarrow> nat \<Rightarrow> nat \<Rightarrow> callable \<Rightarrow> nat \<Rightarrow> error + (nat \<times> world)" where
  "connect_function st ow s F a =
     (case owners st ow of
        None \<Rightarrow> Inl UseAfterFree
      | Some _ \<Rightarrow>
          (case subjects st s of
             None \<Rightarrow> Inl UseAfterFree
           | Some sub \<Rightarrow>
               if sizeof_A sub < function_arity F then Inl StaticAssert
               else
                 (case heap st a of
                    Some _ \<Rightarrow> Inl BadAddress
                  | None \<Rightarrow>
                      connect_unique
                        (st\<lparr>heap := (heap st)
                           (a \<mapsto> \<lparr>m_owner = ow, m_subject = s, m_function = F\<rparr>)\<rparr>) ow s a)))"

text \<open>The subject-to-subject overload: the callable overload on the forwarding lambda.\<close>

definition connect_subject :: "world \<Rightarrow> nat \<Rightarrow> nat \<Rightarrow> nat \<Rightarrow> nat \<Rightarrow> error + (nat \<times> world)" where
  "connect_subject st ow s1 s2 a =
     (case subjects st s2 of
        None \<Rightarrow> Inl UseAfterFree
      | Some sub2 \<Rightarrow> connect_function st ow s1 (Forward (sizeof_A sub2) s2) a)"

definition disconnect :: "world \<Rightarrow> nat \<Rightarrow> nat \<Rightarrow> error + world" where
  "disconnect st ow h =
     (case owners st ow of
        None \<Rightarrow> Inl UseAfterFree
      | Some _ \<Rightarrow>
          (case remove_from_subject st h of
             Inl e \<Rightarrow> Inl e
           | Inr st' \<Rightarrow> owner_remove_observer st' ow h))"

subsection \<open>\<^verbatim>\<open>subject::notify\<close>\<close>

text \<open>
  \<open>notify\<close> is \<^verbatim>\<open>subject::notify\<close>, \<open>notify_loop\<close> its range-for over \<^verbatim>\<open>m_observers\<close>
  and \<open>observer_notify\<close> the virtual \<^verbatim>\<open>observer::notify\<close>. The range-for takes the
  begin and the end of the vector once, before the first callback, and then reads the
  buffer slot by slot up to that end: \<open>i\<close> is the slot it reads next and \<open>k\<close> the number
  of slots left before the end it was given. The loop has no test for what a callback
  does to the vector. An \<^verbatim>\<open>erase\<close> leaves the buffer where it is, so the loop reads the
  buffer as it is when it gets to the slot: the vector as the callback has left it, and
  past the vector's end what \<^verbatim>\<open>erase\<close> has left there. A forwarding lambda calls
  \<open>notify\<close> again, and two subjects that forward to each other never return: the first
  argument bounds the depth of the nested calls.
\<close>

fun notify :: "nat \<Rightarrow> world \<Rightarrow> nat \<Rightarrow> arg list \<Rightarrow> error + world"
  and notify_loop :: "nat \<Rightarrow> world \<Rightarrow> nat \<Rightarrow> nat \<Rightarrow> nat \<Rightarrow> arg list \<Rightarrow> error + world"
  and observer_notify :: "nat \<Rightarrow> world \<Rightarrow> nat \<Rightarrow> arg list \<Rightarrow> error + world"
where
  "notify 0 st s args = Inl OutOfFuel"
| "notify (Suc fuel) st s args =
     (case subjects st s of
        None \<Rightarrow> Inl UseAfterFree
      | Some sub \<Rightarrow>
          if length args \<noteq> sizeof_A sub then Inl IllTyped
          else notify_loop fuel st s 0 (length (m_observers sub)) args)"
| "notify_loop fuel st s i 0 args = Inr st"
| "notify_loop fuel st s i (Suc k) args =
     (case subjects st s of
        None \<Rightarrow> Inl UseAfterFree
      | Some sub \<Rightarrow>
          if i < length (m_observers sub @ past_end st s)
          then
            (case observer_notify fuel st ((m_observers sub @ past_end st s) ! i) args of
               Inl e \<Rightarrow> Inl e
             | Inr st' \<Rightarrow> notify_loop fuel st' s (Suc i) k args)
          else Inl OutsideBuffer)"
| "observer_notify fuel st h args =
     (case heap st h of
        None \<Rightarrow> Inl UseAfterFree
      | Some ob \<Rightarrow>
          (case get_first_n (function_arity (m_function ob)) args of
             Inl e \<Rightarrow> Inl e
           | Inr args' \<Rightarrow>
               (case m_function ob of
                  Plain n c \<Rightarrow> Inr (st\<lparr>trace := trace st @ [(h, args')]\<rparr>)
                | Forward n s2 \<Rightarrow> notify fuel (st\<lparr>trace := trace st @ [(h, args')]\<rparr>) s2 args'
                | Disconnecting n ow h' \<Rightarrow>
                    disconnect (st\<lparr>trace := trace st @ [(h, args')]\<rparr>) ow h')))"

text \<open>
  No callable of the model connects, destroys a subject or makes a blocker, so while a
  loop runs the buffer of its vector is neither moved nor swapped away and loses no
  slot: the loop never reads outside it (lemma \<open>notify_inside_buffer\<close>).
\<close>

subsection \<open>Destructors\<close>

text \<open>\<^verbatim>\<open>subject::~subject\<close>: the loop, then the object is gone.\<close>

definition destroy_subject :: "world \<Rightarrow> nat \<Rightarrow> error + world" where
  "destroy_subject st s =
     (case subjects st s of
        None \<Rightarrow> Inl UseAfterFree
      | Some sub \<Rightarrow>
          (case for_each remove_from_owner (m_observers sub) st of
             Inl e \<Rightarrow> Inl e
           | Inr st' \<Rightarrow> Inr (st'\<lparr>subjects := (subjects st')(s := None)\<rparr>)))"

text \<open>
  \<^verbatim>\<open>observer_owner::~observer_owner\<close>: the loop, then the destructor of the set, which
  deletes every observer it holds, then the object is gone. The language does not fix
  the order in which a set destroys its elements. Nothing here depends on it: \<open>deleted\<close>
  is a multiset, and deleting the same handles in another order gives the same world
  (lemma \<open>for_each_delete_handle_order\<close>).
\<close>

definition destroy_owner :: "world \<Rightarrow> nat \<Rightarrow> error + world" where
  "destroy_owner st ow =
     (case owners st ow of
        None \<Rightarrow> Inl UseAfterFree
      | Some os \<Rightarrow>
          (case for_each remove_from_subject os st of
             Inl e \<Rightarrow> Inl e
           | Inr st' \<Rightarrow>
               (case for_each delete_handle os st' of
                  Inl e \<Rightarrow> Inl e
                | Inr st'' \<Rightarrow> Inr (st''\<lparr>owners := (owners st'')(ow := None)\<rparr>))))"

subsection \<open>\<^verbatim>\<open>subject_blocker\<close>\<close>

text \<open>
  The constructor swaps the blocker's own, empty vector with the subject's; the
  destructor swaps again, and the vector the blocker then holds goes with it. A swap
  exchanges the buffers, so the slots past the end go with the vectors. \<open>b\<close> is the
  address of the blocker.
\<close>

definition blocker_construct :: "world \<Rightarrow> nat \<Rightarrow> nat \<Rightarrow> error + world" where
  "blocker_construct st b s =
     (case blockers st b of
        Some _ \<Rightarrow> Inl BadAddress
      | None \<Rightarrow>
          (case subjects st s of
             None \<Rightarrow> Inl UseAfterFree
           | Some sub \<Rightarrow>
               Inr (st\<lparr>subjects := (subjects st)(s \<mapsto> sub\<lparr>m_observers := []\<rparr>),
                       past_end := (past_end st)(s := []),
                       blockers := (blockers st)
                         (b \<mapsto> \<lparr>blocked_subject = s, blocked_observers = m_observers sub,
                               blocked_past_end = past_end st s\<rparr>)\<rparr>)))"

definition blocker_destroy :: "world \<Rightarrow> nat \<Rightarrow> error + world" where
  "blocker_destroy st b =
     (case blockers st b of
        None \<Rightarrow> Inl UseAfterFree
      | Some bl \<Rightarrow>
          (case subjects st (blocked_subject bl) of
             None \<Rightarrow> Inl UseAfterFree
           | Some sub \<Rightarrow>
               Inr (st\<lparr>subjects := (subjects st)
                         (blocked_subject bl \<mapsto> sub\<lparr>m_observers := blocked_observers bl\<rparr>),
                       past_end := (past_end st)(blocked_subject bl := blocked_past_end bl),
                       blockers := (blockers st)(b := None)\<rparr>)))"

section \<open>Notions for the statements\<close>

text \<open>
  What a pass over the handles \<open>v\<close> records when each of them holds a plain callable:
  every handle once, in the order of \<open>v\<close>, with the leading arguments its callable
  declares.
\<close>

definition calls :: "world \<Rightarrow> nat list \<Rightarrow> arg list \<Rightarrow> (nat \<times> arg list) list" where
  "calls st v args =
     map (\<lambda>h. (h, take (case heap st h of None \<Rightarrow> 0
                          | Some ob \<Rightarrow> function_arity (m_function ob)) args)) v"

fun is_plain :: "callable \<Rightarrow> bool" where
  "is_plain (Plain n c) = True"
| "is_plain (Forward n s2) = False"
| "is_plain (Disconnecting n ow h) = False"

text \<open>
  The handles of \<open>v\<close> are allocated and hold plain callables of at most \<open>k\<close> parameters.
\<close>

definition plain_handles :: "world \<Rightarrow> nat list \<Rightarrow> nat \<Rightarrow> bool" where
  "plain_handles st v k =
     list_all (\<lambda>h. case heap st h of
                     None \<Rightarrow> False
                   | Some ob \<Rightarrow> is_plain (m_function ob) \<and> function_arity (m_function ob) \<le> k) v"


section \<open>Worlds for the examples\<close>

text \<open>
  One owner (0) and one subject of one parameter (0), connected by the handle 1, after
  the subject has published 42.
\<close>

definition e2e_world :: world where
  "e2e_world =
     \<lparr>subjects = [0 \<mapsto> \<lparr>sizeof_A = 1, m_observers = [1]\<rparr>],
      owners = [0 \<mapsto> [1]],
      heap = [1 \<mapsto> \<lparr>m_owner = 0, m_subject = 0, m_function = Plain 1 7\<rparr>],
      blockers = Map.empty,
      past_end = (\<lambda>s. []),
      trace = [(1, [IntArg 42])],
      deleted = {#}\<rparr>"

text \<open>
  One owner (0) and one subject (0) that publishes three arguments, with no connection.
\<close>

definition typed_world :: world where
  "typed_world =
     \<lparr>subjects = [0 \<mapsto> \<lparr>sizeof_A = 3, m_observers = []\<rparr>],
      owners = [0 \<mapsto> []],
      heap = Map.empty,
      blockers = Map.empty,
      past_end = (\<lambda>s. []),
      trace = [],
      deleted = {#}\<rparr>"

text \<open>
  Two owners (0 and 1) and one subject of one parameter (0), with no connection, and
  three connections to make on the subject.
\<close>

definition int_world :: world where
  "int_world =
     \<lparr>subjects = [0 \<mapsto> \<lparr>sizeof_A = 1, m_observers = []\<rparr>],
      owners = [0 \<mapsto> [], 1 \<mapsto> []],
      heap = Map.empty,
      blockers = Map.empty,
      past_end = (\<lambda>s. []),
      trace = [],
      deleted = {#}\<rparr>"


text \<open>
  One owner (0) and one subject of one parameter (0) with the handles 1 and 2 connected,
  in that order.
\<close>

definition two_handles_world :: world where
  "two_handles_world =
     \<lparr>subjects = [0 \<mapsto> \<lparr>sizeof_A = 1, m_observers = [1, 2]\<rparr>],
      owners = [0 \<mapsto> [1, 2]],
      heap = [1 \<mapsto> \<lparr>m_owner = 0, m_subject = 0, m_function = Plain 1 7\<rparr>,
              2 \<mapsto> \<lparr>m_owner = 0, m_subject = 0, m_function = Plain 1 8\<rparr>],
      blockers = Map.empty,
      past_end = (\<lambda>s. []),
      trace = [],
      deleted = {#}\<rparr>"

text \<open>
  \<open>int_world\<close> after owner 0 has connected the callable 7 to the subject at address 1,
  and after it has connected the same callable again at address 2.
\<close>

definition once_connected :: world where
  "once_connected =
     \<lparr>subjects = [0 \<mapsto> \<lparr>sizeof_A = 1, m_observers = [1]\<rparr>],
      owners = [0 \<mapsto> [1], 1 \<mapsto> []],
      heap = [1 \<mapsto> \<lparr>m_owner = 0, m_subject = 0, m_function = Plain 1 7\<rparr>],
      blockers = Map.empty,
      past_end = (\<lambda>s. []),
      trace = [],
      deleted = {#}\<rparr>"

definition twice_connected :: world where
  "twice_connected =
     \<lparr>subjects = [0 \<mapsto> \<lparr>sizeof_A = 1, m_observers = [1, 2]\<rparr>],
      owners = [0 \<mapsto> [1, 2], 1 \<mapsto> []],
      heap = [1 \<mapsto> \<lparr>m_owner = 0, m_subject = 0, m_function = Plain 1 7\<rparr>,
              2 \<mapsto> \<lparr>m_owner = 0, m_subject = 0, m_function = Plain 1 7\<rparr>],
      blockers = Map.empty,
      past_end = (\<lambda>s. []),
      trace = [],
      deleted = {#}\<rparr>"

text \<open>
  Two subjects of two parameters: subject 1 has the handles 1 and 2 of owner 0, subject
  0 has none. \<open>relay_connected\<close> is that world after owner 0 has connected subject 0 to
  subject 1 at address 3.
\<close>

definition relay_world :: world where
  "relay_world =
     \<lparr>subjects = [0 \<mapsto> \<lparr>sizeof_A = 2, m_observers = []\<rparr>,
                  1 \<mapsto> \<lparr>sizeof_A = 2, m_observers = [1, 2]\<rparr>],
      owners = [0 \<mapsto> [1, 2]],
      heap = [1 \<mapsto> \<lparr>m_owner = 0, m_subject = 1, m_function = Plain 2 7\<rparr>,
              2 \<mapsto> \<lparr>m_owner = 0, m_subject = 1, m_function = Plain 1 8\<rparr>],
      blockers = Map.empty,
      past_end = (\<lambda>s. []),
      trace = [],
      deleted = {#}\<rparr>"

definition relay_connected :: world where
  "relay_connected =
     \<lparr>subjects = [0 \<mapsto> \<lparr>sizeof_A = 2, m_observers = [3]\<rparr>,
                  1 \<mapsto> \<lparr>sizeof_A = 2, m_observers = [1, 2]\<rparr>],
      owners = [0 \<mapsto> [1, 2, 3]],
      heap = [1 \<mapsto> \<lparr>m_owner = 0, m_subject = 1, m_function = Plain 2 7\<rparr>,
              2 \<mapsto> \<lparr>m_owner = 0, m_subject = 1, m_function = Plain 1 8\<rparr>,
              3 \<mapsto> \<lparr>m_owner = 0, m_subject = 0, m_function = Forward 2 1\<rparr>],
      blockers = Map.empty,
      past_end = (\<lambda>s. []),
      trace = [],
      deleted = {#}\<rparr>"

section \<open>Consistency of the two registries\<close>

text \<open>
  A blocker holds a handle when the handle is in the sequence the blocker has saved.
\<close>

definition held :: "world \<Rightarrow> nat \<Rightarrow> bool" where
  "held st h = (\<exists>b bl. blockers st b = Some bl \<and> h \<in> set (blocked_observers bl))"

text \<open>
  \<open>subjects_ok\<close>: a dispatch sequence lists no handle twice, and every handle it lists
  is allocated and bound to that subject. \<open>owners_ok\<close>: likewise for the set of an
  owner. \<open>handles_owned\<close>: every allocated handle is in the set of its owner, which is
  alive. \<open>blockers_ok\<close>: a saved sequence lists no handle twice, and every handle it
  lists is allocated and bound to the blocker's subject. \<open>handles_attached\<close>: every
  allocated handle is in the dispatch sequence of its subject, which is alive.
\<close>

definition subjects_ok :: "world \<Rightarrow> bool" where
  "subjects_ok st =
     (\<forall>s sub. subjects st s = Some sub \<longrightarrow>
        distinct (m_observers sub) \<and>
        (\<forall>h \<in> set (m_observers sub). \<exists>ob. heap st h = Some ob \<and> m_subject ob = s))"

definition owners_ok :: "world \<Rightarrow> bool" where
  "owners_ok st =
     (\<forall>ow os. owners st ow = Some os \<longrightarrow>
        distinct os \<and> (\<forall>h \<in> set os. \<exists>ob. heap st h = Some ob \<and> m_owner ob = ow))"

definition handles_owned :: "world \<Rightarrow> bool" where
  "handles_owned st =
     (\<forall>h ob. heap st h = Some ob \<longrightarrow> (\<exists>os. owners st (m_owner ob) = Some os \<and> h \<in> set os))"

definition blockers_ok :: "world \<Rightarrow> bool" where
  "blockers_ok st =
     (\<forall>b bl. blockers st b = Some bl \<longrightarrow>
        distinct (blocked_observers bl) \<and>
        (\<forall>h \<in> set (blocked_observers bl).
           \<exists>ob. heap st h = Some ob \<and> m_subject ob = blocked_subject bl))"

definition handles_attached :: "world \<Rightarrow> bool" where
  "handles_attached st =
     (\<forall>h ob. heap st h = Some ob \<longrightarrow>
        (\<exists>sub. subjects st (m_subject ob) = Some sub \<and> h \<in> set (m_observers sub)))"

text \<open>
  A world is consistent when the registries and the saved sequences list only allocated
  handles that their owners hold. It is well formed when moreover every allocated
  handle is in the sequence of its live subject, so that no blocker holds a handle.
\<close>

definition consistent :: "world \<Rightarrow> bool" where
  "consistent st = (subjects_ok st \<and> owners_ok st \<and> handles_owned st \<and> blockers_ok st)"

definition well_formed :: "world \<Rightarrow> bool" where
  "well_formed st = (consistent st \<and> handles_attached st \<and> (\<forall>h. \<not> held st h))"

text \<open>
  The world after the handles \<open>hs\<close> have left every dispatch sequence and every owner's
  set and have been deleted.
\<close>

definition detach_all :: "nat list \<Rightarrow> (nat \<rightharpoonup> subject) \<Rightarrow> (nat \<rightharpoonup> subject)" where
  "detach_all hs m =
     (\<lambda>s. map_option (\<lambda>sub. sub\<lparr>m_observers := filter (\<lambda>h. h \<notin> set hs) (m_observers sub)\<rparr>) (m s))"

definition release_all :: "nat list \<Rightarrow> (nat \<rightharpoonup> nat list) \<Rightarrow> (nat \<rightharpoonup> nat list)" where
  "release_all hs m = (\<lambda>ow. map_option (filter (\<lambda>h. h \<notin> set hs)) (m ow))"

definition free_all :: "nat list \<Rightarrow> (nat \<rightharpoonup> observer) \<Rightarrow> (nat \<rightharpoonup> observer)" where
  "free_all hs m = (\<lambda>h. if h \<in> set hs then None else m h)"

definition released :: "nat list \<Rightarrow> world \<Rightarrow> world" where
  "released hs st =
     st\<lparr>subjects := detach_all hs (subjects st),
        owners := release_all hs (owners st),
        heap := free_all hs (heap st),
        deleted := deleted st + mset hs\<rparr>"

text \<open>
  No callable that disconnects names a handle that a blocker holds.
\<close>

definition safe_callbacks :: "world \<Rightarrow> bool" where
  "safe_callbacks st =
     (\<forall>h ob n ow h'. heap st h = Some ob \<and> m_function ob = Disconnecting n ow h' \<longrightarrow>
        \<not> held st h')"

text \<open>
  What claim C9 says of a world: every handle in a dispatch sequence is in the set of an
  owner.
\<close>

definition sequences_owned :: "world \<Rightarrow> bool" where
  "sequences_owned st =
     (\<forall>s sub h. subjects st s = Some sub \<and> h \<in> set (m_observers sub) \<longrightarrow>
        (\<exists>ow os. owners st ow = Some os \<and> h \<in> set os))"

text \<open>
  The worlds that the public operations reach from the empty world. With \<open>guarded\<close>
  set, an operation that releases handles (\<^verbatim>\<open>disconnect\<close>, the two destructors, and
  \<^verbatim>\<open>notify\<close> through a callable that disconnects) is taken only when no blocker holds a
  handle it releases.
\<close>

inductive reach :: "bool \<Rightarrow> world \<Rightarrow> bool" for guarded :: bool where
  start: "reach guarded empty_world"
| subject: "reach guarded st \<Longrightarrow> new_subject st s n = Inr st' \<Longrightarrow> reach guarded st'"
| owner: "reach guarded st \<Longrightarrow> new_owner st ow = Inr st' \<Longrightarrow> reach guarded st'"
| connect: "reach guarded st \<Longrightarrow> connect_function st ow s F a = Inr (h, st') \<Longrightarrow> reach guarded st'"
| relay: "reach guarded st \<Longrightarrow> connect_subject st ow s1 s2 a = Inr (h, st') \<Longrightarrow> reach guarded st'"
| disconnect:
    "reach guarded st \<Longrightarrow> (guarded \<longrightarrow> \<not> held st h) \<Longrightarrow> disconnect st ow h = Inr st' \<Longrightarrow>
       reach guarded st'"
| notify:
    "reach guarded st \<Longrightarrow> (guarded \<longrightarrow> safe_callbacks st) \<Longrightarrow>
       notify fuel st s args = Inr st' \<Longrightarrow> reach guarded st'"
| destroy_owner:
    "reach guarded st \<Longrightarrow> owners st ow = Some os \<Longrightarrow>
       (guarded \<longrightarrow> (\<forall>h \<in> set os. \<not> held st h)) \<Longrightarrow>
       destroy_owner st ow = Inr st' \<Longrightarrow> reach guarded st'"
| destroy_subject:
    "reach guarded st \<Longrightarrow> subjects st s = Some sub \<Longrightarrow>
       (guarded \<longrightarrow> (\<forall>h \<in> set (m_observers sub). \<not> held st h)) \<Longrightarrow>
       destroy_subject st s = Inr st' \<Longrightarrow> reach guarded st'"
| block: "reach guarded st \<Longrightarrow> blocker_construct st b s = Inr st' \<Longrightarrow> reach guarded st'"
| unblock: "reach guarded st \<Longrightarrow> blocker_destroy st b = Inr st' \<Longrightarrow> reach guarded st'"

text \<open>
  Two owners and two subjects, connected crosswise: handle 1 of owner 0 on subject 0,
  handle 2 of owner 0 on subject 1, handle 3 of owner 1 on subject 0.
\<close>

definition cross_world :: world where
  "cross_world =
     \<lparr>subjects = [0 \<mapsto> \<lparr>sizeof_A = 1, m_observers = [1, 3]\<rparr>,
                  1 \<mapsto> \<lparr>sizeof_A = 1, m_observers = [2]\<rparr>],
      owners = [0 \<mapsto> [1, 2], 1 \<mapsto> [3]],
      heap = [1 \<mapsto> \<lparr>m_owner = 0, m_subject = 0, m_function = Plain 1 7\<rparr>,
              2 \<mapsto> \<lparr>m_owner = 0, m_subject = 1, m_function = Plain 1 8\<rparr>,
              3 \<mapsto> \<lparr>m_owner = 1, m_subject = 0, m_function = Plain 0 9\<rparr>],
      blockers = Map.empty,
      past_end = (\<lambda>s. []),
      trace = [],
      deleted = {#}\<rparr>"

text \<open>
  What a call that returns \<open>r\<close> from the world \<open>st\<close> keeps when \<open>r\<close> is a world: the
  blockers are the same, no handle has been allocated or changed, and a consistent
  world with safe callbacks stays one.
\<close>

definition keeps :: "world \<Rightarrow> error + world \<Rightarrow> bool" where
  "keeps st r =
     (case r of
        Inl e \<Rightarrow> True
      | Inr st' \<Rightarrow>
          blockers st' = blockers st \<and>
          (\<forall>h ob. heap st' h = Some ob \<longrightarrow> heap st h = Some ob) \<and>
          (consistent st \<and> safe_callbacks st \<longrightarrow> consistent st' \<and> safe_callbacks st'))"

text \<open>
  The world after: a subject 0 of one parameter and an owner 0 are made, the owner
  connects a callable at address 1, a blocker 0 is put on the subject, the owner
  disconnects the handle, and the blocker is destroyed.
\<close>

definition dangling_world :: world where
  "dangling_world =
     \<lparr>subjects = [0 \<mapsto> \<lparr>sizeof_A = 1, m_observers = [1]\<rparr>],
      owners = [0 \<mapsto> []],
      heap = Map.empty,
      blockers = Map.empty,
      past_end = (\<lambda>s. []),
      trace = [],
      deleted = {#1#}\<rparr>"

text \<open>
  The same beginning, but the blocker is destroyed with no disconnection in between.
\<close>

definition unblocked_world :: world where
  "unblocked_world =
     \<lparr>subjects = [0 \<mapsto> \<lparr>sizeof_A = 1, m_observers = [1]\<rparr>],
      owners = [0 \<mapsto> [1]],
      heap = [1 \<mapsto> \<lparr>m_owner = 0, m_subject = 0, m_function = Plain 1 7\<rparr>],
      blockers = Map.empty,
      past_end = (\<lambda>s. []),
      trace = [],
      deleted = {#}\<rparr>"





text \<open>
  One owner holds the handles 1 and 2 of one subject, whose sequence lists handle 2
  alone.
\<close>

definition detached_world :: world where
  "detached_world =
     \<lparr>subjects = [0 \<mapsto> \<lparr>sizeof_A = 1, m_observers = [2]\<rparr>],
      owners = [0 \<mapsto> [1, 2]],
      heap = [1 \<mapsto> \<lparr>m_owner = 0, m_subject = 0, m_function = Plain 1 7\<rparr>,
              2 \<mapsto> \<lparr>m_owner = 0, m_subject = 0, m_function = Plain 1 8\<rparr>],
      blockers = Map.empty,
      past_end = (\<lambda>s. []),
      trace = [],
      deleted = {#}\<rparr>"

text \<open>
  What a call that returns \<open>r\<close> from the world \<open>st\<close> keeps of the buffers: it does not end
  in a read outside a buffer, and when \<open>r\<close> is a world every subject that was alive is
  alive and its buffer has as many written slots as it had.
\<close>

definition inside :: "world \<Rightarrow> error + world \<Rightarrow> bool" where
  "inside st r =
     (case r of
        Inl e \<Rightarrow> e \<noteq> OutsideBuffer
      | Inr st' \<Rightarrow>
          (\<forall>s sub. subjects st s = Some sub \<longrightarrow>
             (\<exists>sub'. subjects st' s = Some sub' \<and>
                length (m_observers sub') + length (past_end st' s) =
                length (m_observers sub) + length (past_end st s))))"


text \<open>
  No callable that disconnects names a handle of the dispatch sequence of the subject
  \<open>s\<close>.
\<close>

definition spared :: "world \<Rightarrow> nat \<Rightarrow> bool" where
  "spared st s =
     (\<forall>h ob n ow h' sub.
        heap st h = Some ob \<and> m_function ob = Disconnecting n ow h' \<and>
        subjects st s = Some sub \<longrightarrow> h' \<notin> set (m_observers sub))"

text \<open>
  What a call that returns \<open>r\<close> from the world \<open>st\<close>, where no callable that disconnects
  names a handle of the sequence of \<open>s\<close>, leaves of the subject \<open>s\<close> when \<open>r\<close> is a world:
  the subject and its sequence are as they were, the handles of the sequence are the
  same allocated handles, and still no callable that disconnects names one of them.
\<close>

definition undisturbed :: "nat \<Rightarrow> world \<Rightarrow> error + world \<Rightarrow> bool" where
  "undisturbed s st r =
     (case r of
        Inl e \<Rightarrow> True
      | Inr st' \<Rightarrow>
          spared st s \<longrightarrow>
            subjects st' s = subjects st s \<and>
            (\<forall>sub. subjects st s = Some sub \<longrightarrow>
               (\<forall>h \<in> set (m_observers sub). heap st' h = heap st h)) \<and>
            spared st' s)"




text \<open>
  The sequences and the sets are in order: what \<open>consistent\<close> says of them, leaving the
  blockers aside.
\<close>

definition registries_ok :: "world \<Rightarrow> bool" where
  "registries_ok st = (subjects_ok st \<and> owners_ok st \<and> handles_owned st)"

text \<open>
  Every handle of \<open>hs\<close> is allocated and bound to a live subject, and those bound to the
  subject \<open>s\<close> are in the dispatch sequence of \<open>s\<close>.
\<close>

definition anchored :: "world \<Rightarrow> nat \<Rightarrow> nat list \<Rightarrow> bool" where
  "anchored st s hs =
     (\<forall>h \<in> set hs. \<exists>ob sub. heap st h = Some ob \<and> subjects st (m_subject ob) = Some sub \<and>
        (m_subject ob = s \<longrightarrow> h \<in> set (m_observers sub)))"

text \<open>
  The worlds that the public operations reach from the empty world when no blocker is
  ever made.
\<close>

inductive reach_unblocked :: "world \<Rightarrow> bool" where
  start: "reach_unblocked empty_world"
| subject: "reach_unblocked st \<Longrightarrow> new_subject st s n = Inr st' \<Longrightarrow> reach_unblocked st'"
| owner: "reach_unblocked st \<Longrightarrow> new_owner st ow = Inr st' \<Longrightarrow> reach_unblocked st'"
| connect:
    "reach_unblocked st \<Longrightarrow> connect_function st ow s F a = Inr (h, st') \<Longrightarrow> reach_unblocked st'"
| relay:
    "reach_unblocked st \<Longrightarrow> connect_subject st ow s1 s2 a = Inr (h, st') \<Longrightarrow> reach_unblocked st'"
| disconnect: "reach_unblocked st \<Longrightarrow> disconnect st ow h = Inr st' \<Longrightarrow> reach_unblocked st'"
| notify: "reach_unblocked st \<Longrightarrow> notify fuel st s args = Inr st' \<Longrightarrow> reach_unblocked st'"
| destroy_owner: "reach_unblocked st \<Longrightarrow> destroy_owner st ow = Inr st' \<Longrightarrow> reach_unblocked st'"
| destroy_subject:
    "reach_unblocked st \<Longrightarrow> destroy_subject st s = Inr st' \<Longrightarrow> reach_unblocked st'"

text \<open>
  What a call that returns \<open>r\<close> from a well-formed world \<open>st\<close> keeps when \<open>r\<close> is a world:
  the world is well formed.
\<close>

definition keeps_well_formed :: "world \<Rightarrow> error + world \<Rightarrow> bool" where
  "keeps_well_formed st r =
     (case r of Inl e \<Rightarrow> True | Inr st' \<Rightarrow> well_formed st \<longrightarrow> well_formed st')"

text \<open>
  The world after: a subject 0 of one parameter and an owner 0 are made, the owner
  connects callables at the addresses 1 and 2, a blocker 0 is put on the subject, the
  owner connects a callable at address 3, and the blocker is destroyed. The owner holds
  the three handles, the subject lists the first two. \<open>lost_after_owner\<close> is that world
  after the destructor of the owner, \<open>lost_after_both\<close> after the destructor of the
  subject has followed, and \<open>lost_after_subject\<close> is \<open>lost_world\<close> after the destructor of
  the subject.
\<close>

definition lost_world :: world where
  "lost_world =
     \<lparr>subjects = [0 \<mapsto> \<lparr>sizeof_A = 1, m_observers = [1, 2]\<rparr>],
      owners = [0 \<mapsto> [1, 2, 3]],
      heap = [1 \<mapsto> \<lparr>m_owner = 0, m_subject = 0, m_function = Plain 1 7\<rparr>,
              2 \<mapsto> \<lparr>m_owner = 0, m_subject = 0, m_function = Plain 1 8\<rparr>,
              3 \<mapsto> \<lparr>m_owner = 0, m_subject = 0, m_function = Plain 1 9\<rparr>],
      blockers = Map.empty,
      past_end = (\<lambda>s. []),
      trace = [],
      deleted = {#}\<rparr>"

definition lost_after_owner :: world where
  "lost_after_owner =
     \<lparr>subjects = [0 \<mapsto> \<lparr>sizeof_A = 1, m_observers = []\<rparr>],
      owners = Map.empty,
      heap = Map.empty,
      blockers = Map.empty,
      past_end = (\<lambda>s. [])(0 := [2, 2]),
      trace = [],
      deleted = {#1, 2, 3#}\<rparr>"

definition lost_after_both :: world where
  "lost_after_both =
     \<lparr>subjects = Map.empty,
      owners = Map.empty,
      heap = Map.empty,
      blockers = Map.empty,
      past_end = (\<lambda>s. [])(0 := [2, 2]),
      trace = [],
      deleted = {#1, 2, 3#}\<rparr>"

definition lost_after_subject :: world where
  "lost_after_subject =
     \<lparr>subjects = Map.empty,
      owners = [0 \<mapsto> [3]],
      heap = [3 \<mapsto> \<lparr>m_owner = 0, m_subject = 0, m_function = Plain 1 9\<rparr>],
      blockers = Map.empty,
      past_end = (\<lambda>s. []),
      trace = [],
      deleted = {#1, 2#}\<rparr>"

text \<open>
  The world after: a subject 0 of one parameter and an owner 0 are made, the owner
  connects a callable at address 1, a blocker 0 is put on the subject, the owner
  disconnects the handle, the blocker is destroyed, and the owner connects a callable at
  address 2. The subject lists the handle 1, which is gone, and the handle 2.
  \<open>stale_after_owner\<close> is that world after the destructor of the owner.
\<close>

definition stale_world :: world where
  "stale_world =
     \<lparr>subjects = [0 \<mapsto> \<lparr>sizeof_A = 1, m_observers = [1, 2]\<rparr>],
      owners = [0 \<mapsto> [2]],
      heap = [2 \<mapsto> \<lparr>m_owner = 0, m_subject = 0, m_function = Plain 1 8\<rparr>],
      blockers = Map.empty,
      past_end = (\<lambda>s. []),
      trace = [],
      deleted = {#1#}\<rparr>"

definition stale_after_owner :: world where
  "stale_after_owner =
     \<lparr>subjects = [0 \<mapsto> \<lparr>sizeof_A = 1, m_observers = [1]\<rparr>],
      owners = Map.empty,
      heap = Map.empty,
      blockers = Map.empty,
      past_end = (\<lambda>s. [])(0 := [2]),
      trace = [],
      deleted = {#1, 2#}\<rparr>"

section \<open>Properties\<close>

lemma fun_upd_const [simp]: "(\<lambda>s. c)(x := c) = (\<lambda>s. c)"
  by (rule ext) simp

lemma get_first_take: "n \<le> length t \<Longrightarrow> get_first n t = Inr (take n t)"
  by (induction n) (simp_all add: take_Suc_conv_app_nth)

lemma get_first_n_take: "n \<le> length args \<Longrightarrow> get_first_n n args = Inr (take n args)"
  by (simp add: get_first_n_def get_first_take)

lemma find_if_none: "(find_if P xs = length xs) = (\<forall>x \<in> set xs. \<not> P x)"
  by (induction xs) auto

lemma remove_observer_absent: "h \<notin> set v \<Longrightarrow> remove_observer h v = v"
proof -
  assume "h \<notin> set v"
  then have "find_if (\<lambda>o1. o1 = h) (rev v) = length (rev v)"
    using find_if_none [of "\<lambda>o1. o1 = h" "rev v"] by auto
  then show ?thesis
    by (simp add: remove_observer_def)
qed

lemma remove_observer_last:
  assumes "h \<notin> set zs"
  shows "remove_observer h (ys @ h # zs) = ys @ zs"
proof -
  have "find_if (\<lambda>o1. o1 = h) (rev zs @ h # rev ys) = length zs"
    using assms by (induction zs rule: rev_induct) simp_all
  then show ?thesis
    by (simp add: remove_observer_def Let_def erase_def)
qed

lemma remove_observer_snoc: "remove_observer a (v @ [a]) = v"
  using remove_observer_last [of a "[]" v] by simp

lemma remove_observer_distinct:
  "distinct v \<Longrightarrow> remove_observer h v = filter (\<lambda>x. x \<noteq> h) v"
proof (cases "h \<in> set v")
  case False
  then have "filter (\<lambda>x. x \<noteq> h) v = v" by (auto simp: filter_id_conv)
  with False show ?thesis by (simp add: remove_observer_absent)
next
  case True
  assume d: "distinct v"
  from True obtain ys zs where v: "v = ys @ h # zs" by (auto simp: in_set_conv_decomp)
  with d have "h \<notin> set zs" "h \<notin> set ys" by auto
  moreover from this have "filter (\<lambda>x. x \<noteq> h) ys = ys" "filter (\<lambda>x. x \<noteq> h) zs = zs"
    by (auto simp: filter_id_conv)
  ultimately show ?thesis unfolding v by (simp add: remove_observer_last)
qed

subsection \<open>What the operations return\<close>

lemma connect_function_Inr:
  "(connect_function st ow s F a = Inr r) =
     (\<exists>sub os. owners st ow = Some os \<and> subjects st s = Some sub \<and>
        function_arity F \<le> sizeof_A sub \<and> heap st a = None \<and> a \<notin> set os \<and>
        r = (a, st\<lparr>heap := (heap st)(a \<mapsto> \<lparr>m_owner = ow, m_subject = s, m_function = F\<rparr>),
                   subjects := (subjects st)(s \<mapsto> sub\<lparr>m_observers := m_observers sub @ [a]\<rparr>),
                   owners := (owners st)(ow \<mapsto> insort a os),
                   past_end := (past_end st)(s := tl (past_end st s))\<rparr>))"
  by (auto simp: connect_function_def connect_unique_def add_observer_def
      split: option.splits if_splits)

lemma disconnect_Inr:
  assumes "heap st h = Some ob" "owners st ow = Some os" "h \<in> set os"
    "subjects st (m_subject ob) = Some sub"
  shows "disconnect st ow h =
     Inr (st\<lparr>subjects := (subjects st)
               (m_subject ob \<mapsto> sub\<lparr>m_observers := remove_observer h (m_observers sub)\<rparr>),
             owners := (owners st)(ow \<mapsto> remove1 h os),
             heap := (heap st)(h := None),
             past_end := (past_end st)
               (m_subject ob := left_past_end h (m_observers sub) (past_end st (m_subject ob))),
             deleted := deleted st + {#h#}\<rparr>)"
  using assms
  by (simp add: disconnect_def remove_from_subject_def owner_remove_observer_def delete_handle_def)

lemma observer_notify_plain:
  assumes "heap st h = Some ob" "is_plain (m_function ob)"
    "function_arity (m_function ob) \<le> length args"
  shows "observer_notify fuel st h args =
     Inr (st\<lparr>trace := trace st @ [(h, take (function_arity (m_function ob)) args)]\<rparr>)"
  using assms by (cases "m_function ob") (simp_all add: get_first_n_take)

lemma calls_Cons:
  "heap st h = Some ob \<Longrightarrow>
     calls st (h # v) args = (h, take (function_arity (m_function ob)) args) # calls st v args"
  by (simp add: calls_def)

lemma calls_trace [simp]: "calls (st\<lparr>trace := t\<rparr>) v args = calls st v args"
  by (simp add: calls_def)

lemma plain_handles_trace [simp]: "plain_handles (st\<lparr>trace := t\<rparr>) v k = plain_handles st v k"
  by (simp add: plain_handles_def)

lemma notify_loop_plain:
  assumes "subjects st s = Some sub" "i + k \<le> length (m_observers sub)"
    "plain_handles st (take k (drop i (m_observers sub))) (length args)"
  shows "notify_loop fuel st s i k args =
     Inr (st\<lparr>trace := trace st @ calls st (take k (drop i (m_observers sub))) args\<rparr>)"
  using assms
proof (induction k arbitrary: st i)
  case 0
  then show ?case by (simp add: calls_def)
next
  case (Suc k)
  let ?v = "m_observers sub"
  let ?h = "?v ! i"
  from Suc.prems(2) have i: "i < length ?v" by simp
  then have split: "take (Suc k) (drop i ?v) = ?h # take k (drop (Suc i) ?v)"
    by (simp add: Cons_nth_drop_Suc [symmetric])
  from Suc.prems(3) obtain ob where ob: "heap st ?h = Some ob" "is_plain (m_function ob)"
    "function_arity (m_function ob) \<le> length args"
    and rest: "plain_handles st (take k (drop (Suc i) ?v)) (length args)"
    unfolding split by (auto simp: plain_handles_def split: option.splits)
  let ?st' = "st\<lparr>trace := trace st @ [(?h, take (function_arity (m_function ob)) args)]\<rparr>"
  have step: "observer_notify fuel st ?h args = Inr ?st'"
    using ob by (rule observer_notify_plain)
  have "notify_loop fuel ?st' s (Suc i) k args =
      Inr (?st'\<lparr>trace := trace ?st' @ calls ?st' (take k (drop (Suc i) ?v)) args\<rparr>)"
    using Suc.prems(1,2) rest by (intro Suc.IH) simp_all
  then show ?case
    using step Suc.prems(1) i ob(1) unfolding split
    by (simp add: calls_Cons nth_append del: observer_notify.simps)
qed

lemma notify_plain:
  assumes "subjects st s = Some sub" "length args = sizeof_A sub"
    "plain_handles st (m_observers sub) (sizeof_A sub)"
  shows "notify (Suc fuel) st s args =
     Inr (st\<lparr>trace := trace st @ calls st (m_observers sub) args\<rparr>)"
  using assms notify_loop_plain [of st s sub 0 "length (m_observers sub)" args fuel]
  by simp

lemma filter_absent: "h \<notin> set os \<Longrightarrow> filter (\<lambda>x. x \<noteq> h) os = os"
  by (induction os) auto

lemma remove1_distinct: "distinct os \<Longrightarrow> remove1 h os = filter (\<lambda>x. x \<noteq> h) os"
  by (induction os) (auto simp: filter_absent)

subsection \<open>Removal of a handle that is not there\<close>

text \<open>
  Claim C10. For a handle that is not in the dispatch sequence of a subject,
  \<^verbatim>\<open>subject::remove_observer\<close> returns the sequence as it was: the search ends at
  \<^verbatim>\<open>rend()\<close> and nothing is erased. So \<^verbatim>\<open>remove_from_subject\<close> on a live handle that its
  live subject does not list leaves the whole world as it was.
\<close>

theorem absent_handle_removal_is_noop:
  assumes "h \<notin> set (m_observers sub)"
  shows "remove_observer h (m_observers sub) = m_observers sub \<and>
         (heap st h = Some ob \<and> subjects st (m_subject ob) = Some sub \<longrightarrow>
            remove_from_subject st h = Inr st)"
proof -
  from assms have "find_if (\<lambda>o1. o1 = h) (rev (m_observers sub)) = length (m_observers sub)"
    using find_if_none [of "\<lambda>o1. o1 = h" "rev (m_observers sub)"] by auto
  then have "left_past_end h (m_observers sub) p = p" for p
    by (simp add: left_past_end_def)
  with assms show ?thesis
    by (simp add: remove_observer_absent remove_from_subject_def map_upd_triv)
qed

theorem absent_handle_removal_is_noop_witness:
  "(1::nat) \<notin> set (m_observers \<lparr>sizeof_A = 1, m_observers = [2]\<rparr>) \<and>
   heap detached_world 1 = Some \<lparr>m_owner = 0, m_subject = 0, m_function = Plain 1 7\<rparr> \<and>
   subjects detached_world 0 = Some \<lparr>sizeof_A = 1, m_observers = [2]\<rparr> \<and>
   remove_observer 1 [2] = [2] \<and>
   remove_from_subject detached_world 1 = Inr detached_world"
proof -
  have h: "heap detached_world 1 = Some \<lparr>m_owner = 0, m_subject = 0, m_function = Plain 1 7\<rparr>"
    "subjects detached_world 0 = Some \<lparr>sizeof_A = 1, m_observers = [2]\<rparr>"
    by (simp_all add: detached_world_def)
  show ?thesis
    using h absent_handle_removal_is_noop [of 1 "\<lparr>sizeof_A = 1, m_observers = [2]\<rparr>"
        detached_world "\<lparr>m_owner = 0, m_subject = 0, m_function = Plain 1 7\<rparr>"]
    by simp
qed

subsection \<open>\<^verbatim>\<open>disconnect\<close>\<close>

text \<open>
  Claim C3. Let \<open>h\<close> be a live handle, held by its live owner and bound to a live
  subject whose dispatch sequence has no handle twice. Then \<^verbatim>\<open>disconnect( h )\<close> on that
  owner returns; afterwards \<open>h\<close> is in neither the subject's sequence nor the owner's
  set and is deleted, every other entry of the sequence and of the set is where it was,
  and no other subject, owner or handle has changed. A following \<^verbatim>\<open>notify\<close> on the
  subject (its handles holding plain callables) calls exactly the other handles, in
  their order. The witness is the end-to-end scenario: after \<^verbatim>\<open>connect\<close> and
  \<^verbatim>\<open>notify( 42 )\<close>, \<^verbatim>\<open>disconnect\<close> and \<^verbatim>\<open>notify( 7 )\<close> leave the trace at the one call
  with 42.
\<close>

theorem disconnect_removes_handle:
  assumes "heap st h = Some ob" "owners st (m_owner ob) = Some os" "h \<in> set os" "distinct os"
    "subjects st (m_subject ob) = Some sub" "distinct (m_observers sub)"
  shows "\<exists>st'. disconnect st (m_owner ob) h = Inr st' \<and>
           subjects st' = (subjects st)
             (m_subject ob \<mapsto> sub\<lparr>m_observers := filter (\<lambda>x. x \<noteq> h) (m_observers sub)\<rparr>) \<and>
           owners st' = (owners st)(m_owner ob \<mapsto> filter (\<lambda>x. x \<noteq> h) os) \<and>
           heap st' = (heap st)(h := None) \<and>
           blockers st' = blockers st \<and> trace st' = trace st \<and>
           (plain_handles st (m_observers sub) (sizeof_A sub) \<and> length args = sizeof_A sub \<longrightarrow>
              notify (Suc fuel) st' (m_subject ob) args =
                Inr (st'\<lparr>trace := trace st' @
                       calls st (filter (\<lambda>x. x \<noteq> h) (m_observers sub)) args\<rparr>))"
proof -
  let ?v = "filter (\<lambda>x. x \<noteq> h) (m_observers sub)"
  let ?st' = "st\<lparr>subjects := (subjects st)(m_subject ob \<mapsto> sub\<lparr>m_observers := ?v\<rparr>),
                 owners := (owners st)(m_owner ob \<mapsto> filter (\<lambda>x. x \<noteq> h) os),
                 heap := (heap st)(h := None),
                 past_end := (past_end st)
                   (m_subject ob := left_past_end h (m_observers sub) (past_end st (m_subject ob))),
                 deleted := deleted st + {#h#}\<rparr>"
  have d: "disconnect st (m_owner ob) h = Inr ?st'"
    using assms disconnect_Inr [of st h ob "m_owner ob" os sub]
    by (simp add: remove_observer_distinct remove1_distinct)
  have n: "notify (Suc fuel) ?st' (m_subject ob) args = Inr (?st'\<lparr>trace := trace ?st' @ calls st ?v args\<rparr>)"
    if p: "plain_handles st (m_observers sub) (sizeof_A sub)" and l: "length args = sizeof_A sub"
  proof -
    have p': "plain_handles ?st' ?v (sizeof_A sub)"
      using p by (auto simp: plain_handles_def list_all_iff)
    have c: "calls ?st' ?v args = calls st ?v args"
      by (simp add: calls_def)
    show ?thesis
      using notify_plain [of ?st' "m_subject ob" "sub\<lparr>m_observers := ?v\<rparr>" args fuel] p' l c
      by simp
  qed
  show ?thesis
    using d n by (intro exI [of _ ?st']) simp
qed

theorem disconnect_removes_handle_witness:
  "heap e2e_world 1 = Some \<lparr>m_owner = 0, m_subject = 0, m_function = Plain 1 7\<rparr> \<and>
   (\<exists>st'. disconnect e2e_world 0 1 = Inr st' \<and>
      notify (Suc 0) st' 0 [IntArg 7] = Inr st' \<and>
      trace st' = [(1, [IntArg 42])] \<and> heap st' 1 = None \<and> owners st' 0 = Some [])"
  using disconnect_removes_handle [of e2e_world 1
      "\<lparr>m_owner = 0, m_subject = 0, m_function = Plain 1 7\<rparr>" "[1]"
      "\<lparr>sizeof_A = 1, m_observers = [1]\<rparr>" "[IntArg 7]" 0]
  by (auto simp: e2e_world_def plain_handles_def calls_def)

subsection \<open>Passes over plain callables\<close>

lemma plain_handles_append:
  "plain_handles st (v @ w) k = (plain_handles st v k \<and> plain_handles st w k)"
  by (simp add: plain_handles_def)

lemma calls_append: "calls st (v @ w) args = calls st v args @ calls st w args"
  by (simp add: calls_def)

lemma plain_handles_live: "plain_handles st v k \<Longrightarrow> h \<in> set v \<Longrightarrow> heap st h \<noteq> None"
  by (auto simp: plain_handles_def list_all_iff split: option.splits)

text \<open>A world that agrees with another on the handles of \<open>v\<close>.\<close>

lemma plain_handles_cong:
  "(\<And>h. h \<in> set v \<Longrightarrow> heap st' h = heap st h) \<Longrightarrow>
     plain_handles st' v k = plain_handles st v k"
  by (simp add: plain_handles_def list_all_iff)

lemma calls_cong:
  "(\<And>h. h \<in> set v \<Longrightarrow> heap st' h = heap st h) \<Longrightarrow> calls st' v args = calls st v args"
  by (simp add: calls_def)

lemma notify_after_connect:
  assumes c: "connect_function st ow s F a = Inr (a, st')"
    and s: "subjects st s = Some sub"
    and p: "plain_handles st (m_observers sub) (sizeof_A sub)"
    and F: "is_plain F"
  shows "subjects st' s = Some (sub\<lparr>m_observers := m_observers sub @ [a]\<rparr>)"
    and "plain_handles st' (m_observers sub @ [a]) (sizeof_A sub)"
    and "calls st' (m_observers sub @ [a]) args =
           calls st (m_observers sub) args @ [(a, take (function_arity F) args)]"
    and "trace st' = trace st"
proof -
  from c s obtain os where os: "owners st ow = Some os" "function_arity F \<le> sizeof_A sub"
    "heap st a = None"
    and st': "st' = st\<lparr>heap := (heap st)(a \<mapsto> \<lparr>m_owner = ow, m_subject = s, m_function = F\<rparr>),
                   subjects := (subjects st)(s \<mapsto> sub\<lparr>m_observers := m_observers sub @ [a]\<rparr>),
                   owners := (owners st)(ow \<mapsto> insort a os),
                   past_end := (past_end st)(s := tl (past_end st s))\<rparr>"
    by (auto simp: connect_function_Inr)
  have fresh: "a \<notin> set (m_observers sub)"
    using plain_handles_live [OF p] os(3) by blast
  then have same: "\<And>h. h \<in> set (m_observers sub) \<Longrightarrow> heap st' h = heap st h"
    by (auto simp: st')
  show "subjects st' s = Some (sub\<lparr>m_observers := m_observers sub @ [a]\<rparr>)"
    by (simp add: st')
  show "trace st' = trace st"
    by (simp add: st')
  have "plain_handles st' [a] (sizeof_A sub)"
    using F os(2) by (simp add: plain_handles_def st')
  then show "plain_handles st' (m_observers sub @ [a]) (sizeof_A sub)"
    using p plain_handles_cong [of "m_observers sub" st' st, OF same]
    by (simp add: plain_handles_append)
  have "calls st' [a] args = [(a, take (function_arity F) args)]"
    by (simp add: calls_def st')
  then show "calls st' (m_observers sub @ [a]) args =
           calls st (m_observers sub) args @ [(a, take (function_arity F) args)]"
    using calls_cong [of "m_observers sub" st' st args, OF same]
    by (simp add: calls_append)
qed

subsection \<open>Arity adaptation\<close>

text \<open>
  Claim C6. Connecting a callable of declared arity \<open>n\<close> to a subject that publishes at
  least \<open>n\<close> arguments succeeds and puts the new handle at the end of the dispatch
  sequence of the subject. \<^verbatim>\<open>notify( a1, ..., ak )\<close> on the subject then reaches the new
  handle, whose observer calls the callable with exactly the \<open>n\<close> leading arguments, the
  others being dropped: when the handles the subject had hold plain callables, the
  notification returns having called them and then the new handle on \<open>a1, ..., an\<close>.
  Connecting a callable that declares more parameters than the subject publishes is
  rejected where \<^verbatim>\<open>connect\<close> is compiled, by the \<^verbatim>\<open>static_assert\<close> of \<^verbatim>\<open>get_first_n\<close>.
  The witness is the subject of an integer, a string and a boolean: after the connection
  of a callable of one parameter, \<^verbatim>\<open>notify( 5, "x", true )\<close> on the subject calls it with
  the integer alone, and a callable of four parameters is rejected.
\<close>

theorem arity_truncation:
  assumes "subjects st s = Some sub" "owners st ow = Some os" "heap st a = None" "a \<notin> set os"
  shows "(n \<le> sizeof_A sub \<longrightarrow>
            (\<exists>st'. connect_function st ow s (Plain n c) a = Inr (a, st') \<and>
               subjects st' s = Some (sub\<lparr>m_observers := m_observers sub @ [a]\<rparr>) \<and>
               heap st' a = Some \<lparr>m_owner = ow, m_subject = s, m_function = Plain n c\<rparr> \<and>
               (\<forall>args fuel. length args = sizeof_A sub \<longrightarrow>
                  observer_notify fuel st' a args =
                    Inr (st'\<lparr>trace := trace st' @ [(a, take n args)]\<rparr>) \<and>
                  length (take n args) = n \<and>
                  (plain_handles st (m_observers sub) (sizeof_A sub) \<longrightarrow>
                     notify (Suc fuel) st' s args =
                       Inr (st'\<lparr>trace := trace st' @ calls st (m_observers sub) args @
                              [(a, take n args)]\<rparr>))))) \<and>
         (sizeof_A sub < function_arity F \<longrightarrow> connect_function st ow s F a = Inl StaticAssert)"
proof (intro conjI impI)
  assume n: "n \<le> sizeof_A sub"
  let ?ob = "\<lparr>m_owner = ow, m_subject = s, m_function = Plain n c\<rparr>"
  let ?sub' = "sub\<lparr>m_observers := m_observers sub @ [a]\<rparr>"
  let ?st' = "st\<lparr>heap := (heap st)(a \<mapsto> ?ob),
                 subjects := (subjects st)(s \<mapsto> ?sub'),
                 owners := (owners st)(ow \<mapsto> insort a os),
                 past_end := (past_end st)(s := tl (past_end st s))\<rparr>"
  have c: "connect_function st ow s (Plain n c) a = Inr (a, ?st')"
    using assms n by (simp add: connect_function_Inr)
  have s': "subjects ?st' s = Some ?sub'" and h': "heap ?st' a = Some ?ob"
    by simp_all
  have o: "observer_notify fuel ?st' a args = Inr (?st'\<lparr>trace := trace ?st' @ [(a, take n args)]\<rparr>)"
    if "length args = sizeof_A sub" for args fuel
    using that n observer_notify_plain [of ?st' a ?ob args fuel]
    by simp
  have p: "notify (Suc fuel) ?st' s args =
      Inr (?st'\<lparr>trace := trace ?st' @ calls st (m_observers sub) args @ [(a, take n args)]\<rparr>)"
    if l: "length args = sizeof_A sub" and pl: "plain_handles st (m_observers sub) (sizeof_A sub)"
    for args fuel
  proof -
    have F: "is_plain (Plain n c)" by simp
    note a = notify_after_connect [OF c assms(1) pl F]
    have "notify (Suc fuel) ?st' s args =
        Inr (?st'\<lparr>trace := trace ?st' @ calls ?st' (m_observers ?sub') args\<rparr>)"
      using s' l a(2) by (intro notify_plain) simp_all
    with a(3) show ?thesis by simp
  qed
  from c s' h' o p n show "\<exists>st'. connect_function st ow s (Plain n c) a = Inr (a, st') \<and>
      subjects st' s = Some (sub\<lparr>m_observers := m_observers sub @ [a]\<rparr>) \<and>
      heap st' a = Some \<lparr>m_owner = ow, m_subject = s, m_function = Plain n c\<rparr> \<and>
      (\<forall>args fuel. length args = sizeof_A sub \<longrightarrow>
         observer_notify fuel st' a args = Inr (st'\<lparr>trace := trace st' @ [(a, take n args)]\<rparr>) \<and>
         length (take n args) = n \<and>
         (plain_handles st (m_observers sub) (sizeof_A sub) \<longrightarrow>
            notify (Suc fuel) st' s args =
              Inr (st'\<lparr>trace := trace st' @ calls st (m_observers sub) args @
                     [(a, take n args)]\<rparr>)))"
    by (intro exI [of _ ?st']) (simp del: notify.simps observer_notify.simps)
next
  assume "sizeof_A sub < function_arity F"
  then show "connect_function st ow s F a = Inl StaticAssert"
    using assms by (simp add: connect_function_def)
qed

theorem arity_truncation_witness:
  "subjects typed_world 0 = Some \<lparr>sizeof_A = 3, m_observers = []\<rparr> \<and>
   (\<exists>st'. connect_function typed_world 0 0 (Plain 1 7) 1 = Inr (1, st') \<and>
      subjects st' 0 = Some \<lparr>sizeof_A = 3, m_observers = [1]\<rparr> \<and>
      notify (Suc 0) st' 0 [IntArg 5, StrArg ''x'', BoolArg True] =
        Inr (st'\<lparr>trace := trace st' @ [(1, [IntArg 5])]\<rparr>) \<and>
      trace st' = []) \<and>
   connect_function typed_world 0 0 (Plain 4 7) 1 = Inl StaticAssert"
proof -
  have h: "subjects typed_world 0 = Some \<lparr>sizeof_A = 3, m_observers = []\<rparr>"
    "owners typed_world 0 = Some []" "heap typed_world 1 = None" "(1::nat) \<notin> set []"
    by (simp_all add: typed_world_def)
  note t = arity_truncation [OF h, of 1 7 "Plain 4 7"]
  from t obtain st' where c: "connect_function typed_world 0 0 (Plain 1 7) 1 = Inr (1, st')"
    and s: "subjects st' 0 = Some \<lparr>sizeof_A = 3, m_observers = [1]\<rparr>"
    and n: "\<forall>args fuel. length args = 3 \<longrightarrow>
         observer_notify fuel st' 1 args = Inr (st'\<lparr>trace := trace st' @ [(1, take 1 args)]\<rparr>) \<and>
         length (take 1 args) = 1 \<and>
         (plain_handles typed_world [] 3 \<longrightarrow>
            notify (Suc fuel) st' 0 args =
              Inr (st'\<lparr>trace := trace st' @ calls typed_world [] args @ [(1, take 1 args)]\<rparr>))"
    by (auto simp del: notify.simps observer_notify.simps)
  have "plain_handles typed_world [] 3" "length [IntArg 5, StrArg ''x'', BoolArg True] = 3"
    by (simp_all add: plain_handles_def)
  with n have p: "notify (Suc 0) st' 0 [IntArg 5, StrArg ''x'', BoolArg True] =
      Inr (st'\<lparr>trace := trace st' @ [(1, [IntArg 5])]\<rparr>)"
    by (simp add: calls_def del: notify.simps observer_notify.simps)
  from c have tr: "trace st' = []"
    by (auto simp: connect_function_Inr typed_world_def)
  from t have r: "connect_function typed_world 0 0 (Plain 4 7) 1 = Inl StaticAssert"
    by simp
  from c s p tr have "\<exists>st'. connect_function typed_world 0 0 (Plain 1 7) 1 = Inr (1, st') \<and>
      subjects st' 0 = Some \<lparr>sizeof_A = 3, m_observers = [1]\<rparr> \<and>
      notify (Suc 0) st' 0 [IntArg 5, StrArg ''x'', BoolArg True] =
        Inr (st'\<lparr>trace := trace st' @ [(1, [IntArg 5])]\<rparr>) \<and>
      trace st' = []"
    by blast
  with h(1) r show ?thesis by blast
qed



subsection \<open>Notification in connection order\<close>



subsection \<open>The blocker\<close>

text \<open>
  Claim C4. Constructing a blocker on a live subject returns and leaves the subject with
  an empty dispatch sequence, so that \<^verbatim>\<open>notify\<close> calls nothing; owners and handles are
  as they were. Destroying the blocker at once gives back the world as it was before the
  blocker, so \<^verbatim>\<open>notify\<close> does then what it did before. Whatever the world has become
  while the blocker lived (the blocker and the subject still being there), destroying the
  blocker sets the subject's sequence to the one saved, handle for handle. In
  particular a handle connected to the subject during the block is in the sequence until
  the blocker goes and is not in it afterwards, while its owner still holds it.
\<close>

theorem blocker_round_trip:
  assumes s: "subjects st s = Some sub" and b: "blockers st b = None"
  shows "\<exists>st1. blocker_construct st b s = Inr st1 \<and>
           subjects st1 s = Some (sub\<lparr>m_observers := []\<rparr>) \<and>
           owners st1 = owners st \<and> heap st1 = heap st \<and>
           (length args = sizeof_A sub \<longrightarrow> notify (Suc fuel) st1 s args = Inr st1) \<and>
           blocker_destroy st1 b = Inr st \<and>
           (\<forall>st2. blockers st2 b = blockers st1 b \<and> subjects st2 s \<noteq> None \<longrightarrow>
              (\<exists>st3. blocker_destroy st2 b = Inr st3 \<and>
                 map_option m_observers (subjects st3 s) = Some (m_observers sub))) \<and>
           (\<forall>ow F a st2. connect_function st1 ow s F a = Inr (a, st2) \<longrightarrow>
              (\<exists>st3. blocker_destroy st2 b = Inr st3 \<and>
                 map_option m_observers (subjects st2 s) = Some [a] \<and>
                 map_option m_observers (subjects st3 s) = Some (m_observers sub) \<and>
                 heap st3 a \<noteq> None \<and> (\<exists>os. owners st3 ow = Some os \<and> a \<in> set os) \<and>
                 (set (m_observers sub) \<subseteq> dom (heap st) \<longrightarrow> a \<notin> set (m_observers sub))))"
proof -
  let ?st1 = "st\<lparr>subjects := (subjects st)(s \<mapsto> sub\<lparr>m_observers := []\<rparr>),
                 past_end := (past_end st)(s := []),
                 blockers := (blockers st)
                   (b \<mapsto> \<lparr>blocked_subject = s, blocked_observers = m_observers sub,
                         blocked_past_end = past_end st s\<rparr>)\<rparr>"
  have c: "blocker_construct st b s = Inr ?st1"
    using s b by (simp add: blocker_construct_def)
  have d: "blocker_destroy ?st1 b = Inr st"
    using s b by (simp add: blocker_destroy_def map_upd_triv fun_upd_idem)
  have n: "notify (Suc fuel) ?st1 s args = Inr ?st1" if "length args = sizeof_A sub"
    using that by simp
  have r: "\<exists>st3. blocker_destroy st2 b = Inr st3 \<and>
             map_option m_observers (subjects st3 s) = Some (m_observers sub)"
    if "blockers st2 b = blockers ?st1 b" "subjects st2 s \<noteq> None" for st2
    using that by (auto simp: blocker_destroy_def)
  have l: "\<exists>st3. blocker_destroy st2 b = Inr st3 \<and>
                 map_option m_observers (subjects st2 s) = Some [a] \<and>
                 map_option m_observers (subjects st3 s) = Some (m_observers sub) \<and>
                 heap st3 a \<noteq> None \<and> (\<exists>os. owners st3 ow = Some os \<and> a \<in> set os) \<and>
                 (set (m_observers sub) \<subseteq> dom (heap st) \<longrightarrow> a \<notin> set (m_observers sub))"
    if "connect_function ?st1 ow s F a = Inr (a, st2)" for ow F a st2
    using that by (auto simp: connect_function_Inr blocker_destroy_def set_insort_key)
  show ?thesis
    using c d n r l by (intro exI [of _ ?st1]) (simp del: notify.simps)
qed

theorem blocker_round_trip_witness:
  "subjects two_handles_world 0 = Some \<lparr>sizeof_A = 1, m_observers = [1, 2]\<rparr> \<and>
   blockers two_handles_world 0 = None \<and>
   notify (Suc 0) two_handles_world 0 [IntArg 3] =
     Inr (two_handles_world\<lparr>trace := [(1, [IntArg 3]), (2, [IntArg 3])]\<rparr>) \<and>
   (\<exists>st1. blocker_construct two_handles_world 0 0 = Inr st1 \<and>
      subjects st1 0 = Some \<lparr>sizeof_A = 1, m_observers = []\<rparr> \<and>
      notify (Suc 0) st1 0 [IntArg 3] = Inr st1 \<and>
      blocker_destroy st1 0 = Inr two_handles_world \<and>
      (\<exists>st2 st3. connect_function st1 0 0 (Plain 1 9) 3 = Inr (3, st2) \<and>
         map_option m_observers (subjects st2 0) = Some [3] \<and>
         blocker_destroy st2 0 = Inr st3 \<and>
         map_option m_observers (subjects st3 0) = Some [1, 2] \<and>
         heap st3 3 \<noteq> None \<and> owners st3 0 = Some [1, 2, 3]))"
proof -
  have n: "notify (Suc 0) two_handles_world 0 [IntArg 3] =
     Inr (two_handles_world\<lparr>trace := [(1, [IntArg 3]), (2, [IntArg 3])]\<rparr>)"
    by (simp add: two_handles_world_def get_first_n_def)
  have s: "subjects two_handles_world 0 = Some \<lparr>sizeof_A = 1, m_observers = [1, 2]\<rparr>"
    and b: "blockers two_handles_world 0 = None"
    by (simp_all add: two_handles_world_def)
  let ?st1 = "two_handles_world
      \<lparr>subjects := (subjects two_handles_world)(0 \<mapsto> \<lparr>sizeof_A = 1, m_observers = []\<rparr>),
       past_end := (past_end two_handles_world)(0 := []),
       blockers := (blockers two_handles_world)
         (0 \<mapsto> \<lparr>blocked_subject = 0, blocked_observers = [1, 2],
               blocked_past_end = past_end two_handles_world 0\<rparr>)\<rparr>"
  have c1: "blocker_construct two_handles_world 0 0 = Inr ?st1"
    by (simp add: blocker_construct_def two_handles_world_def)
  note t = blocker_round_trip [OF s b, of "[IntArg 3]" 0]
  from t c1 have r: "subjects ?st1 0 = Some \<lparr>sizeof_A = 1, m_observers = []\<rparr>"
    "notify (Suc 0) ?st1 0 [IntArg 3] = Inr ?st1"
    "blocker_destroy ?st1 0 = Inr two_handles_world"
    by (simp_all del: notify.simps)
  obtain st2 where c: "connect_function ?st1 0 0 (Plain 1 9) 3 = Inr (3, st2)"
    and o2: "owners st2 0 = Some [1, 2, 3]"
    by (simp add: connect_function_Inr two_handles_world_def)
  from t c1 have l: "\<forall>ow F a st2. connect_function ?st1 ow 0 F a = Inr (a, st2) \<longrightarrow>
      (\<exists>st3. blocker_destroy st2 0 = Inr st3 \<and>
         map_option m_observers (subjects st2 0) = Some [a] \<and>
         map_option m_observers (subjects st3 0) = Some [1, 2] \<and>
         heap st3 a \<noteq> None \<and> (\<exists>os. owners st3 ow = Some os \<and> a \<in> set os) \<and>
         (set [1, 2] \<subseteq> dom (heap two_handles_world) \<longrightarrow> a \<notin> set [1, 2]))"
    by (simp del: notify.simps)
  from l [rule_format, OF c] obtain st3 where d: "blocker_destroy st2 0 = Inr st3"
    "map_option m_observers (subjects st2 0) = Some [3]"
    "map_option m_observers (subjects st3 0) = Some [1, 2]" "heap st3 3 \<noteq> None"
    by blast
  from d(1) o2 have o3: "owners st3 0 = Some [1, 2, 3]"
    by (auto simp: blocker_destroy_def split: option.splits)
  have e: "\<exists>st2 st3. connect_function ?st1 0 0 (Plain 1 9) 3 = Inr (3, st2) \<and>
         map_option m_observers (subjects st2 0) = Some [3] \<and>
         blocker_destroy st2 0 = Inr st3 \<and>
         map_option m_observers (subjects st3 0) = Some [1, 2] \<and>
         heap st3 3 \<noteq> None \<and> owners st3 0 = Some [1, 2, 3]"
    using c d o3 by blast
  have "\<exists>st1. blocker_construct two_handles_world 0 0 = Inr st1 \<and>
      subjects st1 0 = Some \<lparr>sizeof_A = 1, m_observers = []\<rparr> \<and>
      notify (Suc 0) st1 0 [IntArg 3] = Inr st1 \<and>
      blocker_destroy st1 0 = Inr two_handles_world \<and>
      (\<exists>st2 st3. connect_function st1 0 0 (Plain 1 9) 3 = Inr (3, st2) \<and>
         map_option m_observers (subjects st2 0) = Some [3] \<and>
         blocker_destroy st2 0 = Inr st3 \<and>
         map_option m_observers (subjects st3 0) = Some [1, 2] \<and>
         heap st3 3 \<noteq> None \<and> owners st3 0 = Some [1, 2, 3])"
    using c1 r e by blast
  with n s b show ?thesis by blast
qed

subsection \<open>Removal takes the most recent entry\<close>

lemma twice_connected_disconnect:
  assumes s: "subjects st s = Some sub"
    and p: "plain_handles st (m_observers sub) (sizeof_A sub)"
    and F: "is_plain F"
    and l: "length args = sizeof_A sub"
    and c1: "connect_function st ow s F a1 = Inr (a1, st1)"
    and c2: "connect_function st1 ow s F a2 = Inr (a2, st2)"
    and dk: "(d = a1 \<and> k = a2) \<or> (d = a2 \<and> k = a1)"
  shows "\<exists>st3. disconnect st2 ow d = Inr st3 \<and>
           map_option m_observers (subjects st3 s) = Some (m_observers sub @ [k]) \<and>
           notify (Suc fuel) st3 s args =
             Inr (st3\<lparr>trace := trace st3 @ calls st (m_observers sub) args @
                    [(k, take (function_arity F) args)]\<rparr>)"
proof -
  let ?ob = "\<lparr>m_owner = ow, m_subject = s, m_function = F\<rparr>"
  let ?v = "m_observers sub"
  from c1 s obtain os where os: "owners st ow = Some os" "function_arity F \<le> sizeof_A sub"
    "heap st a1 = None" "a1 \<notin> set os"
    and st1: "st1 = st\<lparr>heap := (heap st)(a1 \<mapsto> ?ob),
                   subjects := (subjects st)(s \<mapsto> sub\<lparr>m_observers := ?v @ [a1]\<rparr>),
                   owners := (owners st)(ow \<mapsto> insort a1 os),
                   past_end := (past_end st)(s := tl (past_end st s))\<rparr>"
    by (auto simp: connect_function_Inr)
  from c2 have a2: "heap st1 a2 = None"
    and st2: "st2 = st1\<lparr>heap := (heap st1)(a2 \<mapsto> ?ob),
                   subjects := (subjects st1)(s \<mapsto> sub\<lparr>m_observers := ?v @ [a1, a2]\<rparr>),
                   owners := (owners st1)(ow \<mapsto> insort a2 (insort a1 os)),
                   past_end := (past_end st1)(s := tl (past_end st1 s))\<rparr>"
    by (auto simp: connect_function_Inr st1)
  from a2 have ne: "a1 \<noteq> a2" and a2': "heap st a2 = None"
    by (auto simp: st1 split: if_splits)
  have fresh: "a1 \<notin> set ?v" "a2 \<notin> set ?v"
    using plain_handles_live [OF p] os(3) a2' by blast+
  have rem: "remove_observer d (?v @ [a1, a2]) = ?v @ [k]"
    using dk ne remove_observer_last [of a1 "[a2]" ?v] remove_observer_snoc [of a2 "?v @ [a1]"]
    by auto
  let ?sub3 = "sub\<lparr>m_observers := ?v @ [k]\<rparr>"
  let ?st3 = "st2\<lparr>subjects := (subjects st2)(s \<mapsto> ?sub3),
                  owners := (owners st2)(ow \<mapsto> remove1 d (insort a2 (insort a1 os))),
                  heap := (heap st2)(d := None),
                  past_end := (past_end st2)
                    (s := left_past_end d (?v @ [a1, a2]) (past_end st2 s)),
                  deleted := deleted st2 + {#d#}\<rparr>"
  have hd: "heap st2 d = Some ?ob" "d \<in> set (insort a2 (insort a1 os))"
    using dk by (auto simp: st2 st1 set_insort_key)
  have d: "disconnect st2 ow d = Inr ?st3"
    using disconnect_Inr [of st2 d ?ob ow "insort a2 (insort a1 os)"
        "sub\<lparr>m_observers := ?v @ [a1, a2]\<rparr>"] hd rem
    by (simp add: st2)
  have same: "\<And>h. h \<in> set ?v \<Longrightarrow> heap ?st3 h = heap st h"
    using fresh dk by (auto simp: st2 st1)
  have k: "heap ?st3 k = Some ?ob"
    using dk ne by (auto simp: st2 st1)
  have p3: "plain_handles ?st3 (?v @ [k]) (sizeof_A sub)"
    using p F os(2) k plain_handles_cong [of ?v ?st3 st "sizeof_A sub", OF same]
    by (simp add: plain_handles_append) (simp add: plain_handles_def)
  have c3: "calls ?st3 (?v @ [k]) args = calls st ?v args @ [(k, take (function_arity F) args)]"
    using k calls_cong [of ?v ?st3 st args, OF same]
    by (simp add: calls_append) (simp add: calls_def)
  have s3: "subjects ?st3 s = Some ?sub3"
    by simp
  have "notify (Suc fuel) ?st3 s args =
          Inr (?st3\<lparr>trace := trace ?st3 @ calls ?st3 (m_observers ?sub3) args\<rparr>)"
    using s3 l p3 by (intro notify_plain) simp_all
  with d c3 s3 show ?thesis
    by (intro exI [of _ ?st3]) (simp del: notify.simps)
qed

text \<open>
  Claim C5. For a handle \<open>h\<close> that is in a dispatch sequence, \<^verbatim>\<open>subject::remove_observer\<close>
  removes one entry, the last occurrence of \<open>h\<close> (the first one the backward search
  meets), and leaves the entries before and after it in their order. Hence, when one
  owner connects the same plain callable twice to a subject and then disconnects either
  of the two handles, the other handle is still in the sequence and the next \<^verbatim>\<open>notify\<close>
  calls it, after the handles that were there before.
\<close>

theorem remove_handle_removes_most_recent:
  "(h \<in> set v \<longrightarrow>
      (\<exists>ys zs. v = ys @ h # zs \<and> h \<notin> set zs \<and> remove_observer h v = ys @ zs)) \<and>
   (subjects st s = Some sub \<and> plain_handles st (m_observers sub) (sizeof_A sub) \<and>
    is_plain F \<and> length args = sizeof_A sub \<and>
    connect_function st ow s F a1 = Inr (a1, st1) \<and>
    connect_function st1 ow s F a2 = Inr (a2, st2) \<and>
    ((d = a1 \<and> k = a2) \<or> (d = a2 \<and> k = a1)) \<longrightarrow>
      (\<exists>st3. disconnect st2 ow d = Inr st3 \<and>
         map_option m_observers (subjects st3 s) = Some (m_observers sub @ [k]) \<and>
         notify (Suc fuel) st3 s args =
           Inr (st3\<lparr>trace := trace st3 @ calls st (m_observers sub) args @
                  [(k, take (function_arity F) args)]\<rparr>)))"
proof (intro conjI impI)
  assume "h \<in> set v"
  then obtain ys zs where "v = ys @ h # zs" "h \<notin> set zs"
    using split_list_last by fastforce
  then show "\<exists>ys zs. v = ys @ h # zs \<and> h \<notin> set zs \<and> remove_observer h v = ys @ zs"
    using remove_observer_last by blast
next
  assume a: "subjects st s = Some sub \<and> plain_handles st (m_observers sub) (sizeof_A sub) \<and>
    is_plain F \<and> length args = sizeof_A sub \<and>
    connect_function st ow s F a1 = Inr (a1, st1) \<and>
    connect_function st1 ow s F a2 = Inr (a2, st2) \<and>
    ((d = a1 \<and> k = a2) \<or> (d = a2 \<and> k = a1))"
  then show "\<exists>st3. disconnect st2 ow d = Inr st3 \<and>
         map_option m_observers (subjects st3 s) = Some (m_observers sub @ [k]) \<and>
         notify (Suc fuel) st3 s args =
           Inr (st3\<lparr>trace := trace st3 @ calls st (m_observers sub) args @
                  [(k, take (function_arity F) args)]\<rparr>)"
    by (intro twice_connected_disconnect) blast+
qed

theorem remove_handle_removes_most_recent_witness:
  "(3::nat) \<in> set [3, 5, 3, 4] \<and>
   remove_observer 3 [3, 5, 3, 4] = [3, 5, 4] \<and>
   connect_function int_world 0 0 (Plain 1 7) 1 = Inr (1, once_connected) \<and>
   connect_function once_connected 0 0 (Plain 1 7) 2 = Inr (2, twice_connected) \<and>
   (\<exists>st3. disconnect twice_connected 0 1 = Inr st3 \<and>
      map_option m_observers (subjects st3 0) = Some [2] \<and>
      notify (Suc 0) st3 0 [IntArg 9] = Inr (st3\<lparr>trace := trace st3 @ [(2, [IntArg 9])]\<rparr>))"
proof -
  have r: "remove_observer 3 [3, 5, 3, 4] = [3, 5, 4]"
    by (simp add: remove_observer_def erase_def)
  have c1: "connect_function int_world 0 0 (Plain 1 7) 1 = Inr (1, once_connected)"
    by (simp add: connect_function_Inr int_world_def once_connected_def fun_upd_twist)
  have c2: "connect_function once_connected 0 0 (Plain 1 7) 2 = Inr (2, twice_connected)"
    by (simp add: connect_function_Inr twice_connected_def once_connected_def fun_upd_twist)
  have p: "subjects int_world 0 = Some \<lparr>sizeof_A = 1, m_observers = []\<rparr>"
    "plain_handles int_world (m_observers \<lparr>sizeof_A = 1, m_observers = []\<rparr>)
       (sizeof_A \<lparr>sizeof_A = 1, m_observers = []\<rparr>)"
    "length [IntArg 9] = sizeof_A \<lparr>sizeof_A = 1, m_observers = []\<rparr>"
    by (simp_all add: int_world_def plain_handles_def)
  show ?thesis
    using r c1 c2 p
      remove_handle_removes_most_recent [where h = 3 and v = "[3, 5, 3, 4]" and st = int_world
        and s = 0 and sub = "\<lparr>sizeof_A = 1, m_observers = []\<rparr>" and F = "Plain 1 7"
        and args = "[IntArg 9]" and ow = 0 and ?a1.0 = 1 and ?st1.0 = once_connected
        and ?a2.0 = 2 and ?st2.0 = twice_connected and d = 1 and k = 2 and fuel = 0]
    by (simp add: calls_def del: notify.simps)
qed

subsection \<open>The relay\<close>

lemma notify_loop_append:
  "notify_loop fuel st s i (k1 + k2) args =
     (case notify_loop fuel st s i k1 args of
        Inl e \<Rightarrow> Inl e
      | Inr st1 \<Rightarrow> notify_loop fuel st1 s (i + k1) k2 args)"
  by (induction k1 arbitrary: st i)
    (auto split: sum.splits option.splits simp del: observer_notify.simps)

lemma relay_notify:
  assumes A: "subjects st A = Some subA" and B: "subjects st B = Some subB" and AB: "A \<noteq> B"
    and pA: "plain_handles st (m_observers subA) (sizeof_A subA)"
    and pB: "plain_handles st (m_observers subB) (sizeof_A subB)"
    and c: "connect_function st ow A (Forward (sizeof_A subB) B) a = Inr (a, st')"
    and l: "length args = sizeof_A subA"
  shows "notify (Suc (Suc fuel)) st' A args =
           Inr (st'\<lparr>trace := trace st' @ calls st (m_observers subA) args @
                  [(a, take (sizeof_A subB) args)] @
                  calls st (m_observers subB) (take (sizeof_A subB) args)\<rparr>)"
    and "observer_notify k st' a args =
           notify k (st'\<lparr>trace := trace st' @ [(a, take (sizeof_A subB) args)]\<rparr>) B
             (take (sizeof_A subB) args)"
    and "sizeof_A subB = sizeof_A subA \<Longrightarrow>
           notify (Suc fuel) st' B args =
             Inr (st'\<lparr>trace := trace st' @ calls st (m_observers subB) args\<rparr>)"
proof -
  let ?n = "sizeof_A subB"
  let ?vA = "m_observers subA"
  let ?vB = "m_observers subB"
  let ?ob = "\<lparr>m_owner = ow, m_subject = A, m_function = Forward ?n B\<rparr>"
  from c A obtain os where os: "owners st ow = Some os" "?n \<le> sizeof_A subA" "heap st a = None"
    and st': "st' = st\<lparr>heap := (heap st)(a \<mapsto> ?ob),
                   subjects := (subjects st)(A \<mapsto> subA\<lparr>m_observers := ?vA @ [a]\<rparr>),
                   owners := (owners st)(ow \<mapsto> insort a os),
                   past_end := (past_end st)(A := tl (past_end st A))\<rparr>"
    by (auto simp: connect_function_Inr)
  have fresh: "a \<notin> set ?vA" "a \<notin> set ?vB"
    using plain_handles_live [OF pA] plain_handles_live [OF pB] os(3) by blast+
  have sameA: "\<And>h. h \<in> set ?vA \<Longrightarrow> heap st' h = heap st h"
    and sameB: "\<And>h. h \<in> set ?vB \<Longrightarrow> heap st' h = heap st h"
    using fresh by (auto simp: st')
  have sA: "subjects st' A = Some (subA\<lparr>m_observers := ?vA @ [a]\<rparr>)"
    and sB: "subjects st' B = Some subB"
    and ha: "heap st' a = Some ?ob"
    using AB B by (simp_all add: st')
  have pA': "plain_handles st' ?vA (length args)"
    using pA l plain_handles_cong [of ?vA st' st, OF sameA] by simp
  have pB': "plain_handles st' ?vB (sizeof_A subB)"
    using pB plain_handles_cong [of ?vB st' st, OF sameB] by simp
  have cA: "calls st' ?vA args = calls st ?vA args"
    using calls_cong [of ?vA st' st, OF sameA] by simp
  have cB: "\<And>xs. calls st' ?vB xs = calls st ?vB xs"
    using calls_cong [of ?vB st' st, OF sameB] by simp
  have g: "get_first_n ?n args = Inr (take ?n args)"
    using os(2) l by (simp add: get_first_n_take)
  show on: "observer_notify k st' a args =
           notify k (st'\<lparr>trace := trace st' @ [(a, take ?n args)]\<rparr>) B (take ?n args)" for k
    using ha g by simp
  let ?st1 = "st'\<lparr>trace := trace st' @ calls st ?vA args\<rparr>"
  have first: "notify_loop (Suc fuel) st' A 0 (length ?vA) args = Inr ?st1"
    using notify_loop_plain [of st' A "subA\<lparr>m_observers := ?vA @ [a]\<rparr>" 0 "length ?vA" args
        "Suc fuel"] sA pA' cA
    by simp
  let ?st2 = "?st1\<lparr>trace := trace ?st1 @ [(a, take ?n args)]\<rparr>"
  have lt: "length (take ?n args) = sizeof_A subB"
    using os(2) l by simp
  have inner: "notify (Suc fuel) ?st2 B (take ?n args) =
      Inr (?st2\<lparr>trace := trace ?st2 @ calls ?st2 ?vB (take ?n args)\<rparr>)"
    using sB lt pB' by (intro notify_plain) simp_all
  have relay: "observer_notify (Suc fuel) ?st1 a args =
      Inr (?st2\<lparr>trace := trace ?st2 @ calls st ?vB (take ?n args)\<rparr>)"
    using inner ha g cB by (simp del: notify.simps)
  have second: "notify_loop (Suc fuel) ?st1 A (length ?vA) (Suc 0) args =
      Inr (?st2\<lparr>trace := trace ?st2 @ calls st ?vB (take ?n args)\<rparr>)"
    using relay sA by (simp del: notify.simps observer_notify.simps)
  have "notify_loop (Suc fuel) st' A 0 (length ?vA + Suc 0) args =
      Inr (?st2\<lparr>trace := trace ?st2 @ calls st ?vB (take ?n args)\<rparr>)"
    using first second by (simp only: notify_loop_append sum.case add_0)
  then show "notify (Suc (Suc fuel)) st' A args =
           Inr (st'\<lparr>trace := trace st' @ calls st ?vA args @ [(a, take ?n args)] @
                  calls st ?vB (take ?n args)\<rparr>)"
    using sA l
    by (simp del: notify_loop.simps)
  show "notify (Suc fuel) st' B args = Inr (st'\<lparr>trace := trace st' @ calls st ?vB args\<rparr>)"
    if "sizeof_A subB = sizeof_A subA"
    using notify_plain [of st' B subB args fuel] sB pB' l that cB by simp
qed

text \<open>
  Claim C7. \<^verbatim>\<open>connect( A, B )\<close> is \<^verbatim>\<open>connect\<close> of subject \<open>A\<close> to the callable that
  takes the parameters of \<open>B\<close> and passes them to \<^verbatim>\<open>B.notify\<close>: the new handle's
  \<^verbatim>\<open>notify\<close> is \<^verbatim>\<open>B.notify\<close> on the arguments the callable received, which are the
  leading \<open>sizeof...( As2 )\<close> arguments of \<open>A\<close>. When the handles of \<open>A\<close> and of \<open>B\<close> hold
  plain callables and \<open>A\<close> is not \<open>B\<close>, \<^verbatim>\<open>A.notify( args )\<close> after the connection returns
  (a recursion budget of two is enough) having called the handles \<open>A\<close> had, then the
  relay, then every handle of \<open>B\<close> exactly once, in the order of \<open>B\<close>, on the forwarded
  arguments. When \<open>B\<close> publishes as many arguments as \<open>A\<close>, the forwarded arguments are
  \<open>args\<close> themselves and the handles of \<open>B\<close> record what \<^verbatim>\<open>B.notify( args )\<close> records.
\<close>

theorem relay_propagation:
  assumes "subjects st A = Some subA" "subjects st B = Some subB" "A \<noteq> B"
    "plain_handles st (m_observers subA) (sizeof_A subA)"
    "plain_handles st (m_observers subB) (sizeof_A subB)"
    "connect_subject st ow A B a = Inr (a, st')"
    "length args = sizeof_A subA"
  shows "connect_subject st ow A B a =
           connect_function st ow A (Forward (sizeof_A subB) B) a \<and>
         (\<forall>k. observer_notify k st' a args =
           notify k (st'\<lparr>trace := trace st' @ [(a, take (sizeof_A subB) args)]\<rparr>) B
             (take (sizeof_A subB) args)) \<and>
         notify (Suc (Suc fuel)) st' A args =
           Inr (st'\<lparr>trace := trace st' @ calls st (m_observers subA) args @
                  [(a, take (sizeof_A subB) args)] @
                  calls st (m_observers subB) (take (sizeof_A subB) args)\<rparr>) \<and>
         (sizeof_A subB = sizeof_A subA \<longrightarrow>
            take (sizeof_A subB) args = args \<and>
            notify (Suc fuel) st' B args =
              Inr (st'\<lparr>trace := trace st' @ calls st (m_observers subB) args\<rparr>))"
proof -
  have sugar: "connect_subject st ow A B a =
      connect_function st ow A (Forward (sizeof_A subB) B) a"
    using assms(2) by (simp add: connect_subject_def)
  with assms(6) have c: "connect_function st ow A (Forward (sizeof_A subB) B) a = Inr (a, st')"
    by simp
  note r = relay_notify [OF assms(1,2,3,4,5) c assms(7)]
  show ?thesis
    using sugar r(1) [of fuel] r(2) r(3) [of fuel] assms(7)
    by (simp del: notify.simps observer_notify.simps)
qed

theorem relay_propagation_witness:
  "connect_subject relay_world 0 0 1 3 = Inr (3, relay_connected) \<and>
   notify (Suc (Suc 0)) relay_connected 0 [IntArg 1, StrArg ''x''] =
     Inr (relay_connected\<lparr>trace :=
        [(3, [IntArg 1, StrArg ''x'']), (1, [IntArg 1, StrArg ''x'']), (2, [IntArg 1])]\<rparr>)"
proof -
  have c: "connect_subject relay_world 0 0 1 3 = Inr (3, relay_connected)"
    by (simp add: connect_subject_def connect_function_Inr relay_world_def relay_connected_def
        fun_upd_twist)
  have h: "subjects relay_world 0 = Some \<lparr>sizeof_A = 2, m_observers = []\<rparr>"
    "subjects relay_world 1 = Some \<lparr>sizeof_A = 2, m_observers = [1, 2]\<rparr>"
    "(0::nat) \<noteq> 1"
    "plain_handles relay_world (m_observers \<lparr>sizeof_A = 2, m_observers = []\<rparr>)
       (sizeof_A \<lparr>sizeof_A = 2, m_observers = []\<rparr>)"
    "plain_handles relay_world (m_observers \<lparr>sizeof_A = 2, m_observers = [1, 2]\<rparr>)
       (sizeof_A \<lparr>sizeof_A = 2, m_observers = [1, 2]\<rparr>)"
    "length [IntArg 1, StrArg ''x''] = sizeof_A \<lparr>sizeof_A = 2, m_observers = []\<rparr>"
    by (simp_all add: relay_world_def plain_handles_def)
  have t: "trace relay_connected = []"
    "calls relay_world [1, 2] [IntArg 1, StrArg ''x''] =
       [(1, [IntArg 1, StrArg ''x'']), (2, [IntArg 1])]"
    by (simp_all add: relay_connected_def relay_world_def calls_def)
  show ?thesis
    using c t relay_propagation [OF h(1,2,3,4,5) c h(6), of 0]
    by (simp add: calls_def del: notify.simps observer_notify.simps)
qed

subsection \<open>The registries do not depend on the slots past the end\<close>

lemma subjects_ok_past_end [simp]: "subjects_ok (st\<lparr>past_end := p\<rparr>) = subjects_ok st"
  by (simp add: subjects_ok_def)

lemma owners_ok_past_end [simp]: "owners_ok (st\<lparr>past_end := p\<rparr>) = owners_ok st"
  by (simp add: owners_ok_def)

lemma handles_owned_past_end [simp]: "handles_owned (st\<lparr>past_end := p\<rparr>) = handles_owned st"
  by (simp add: handles_owned_def)

lemma blockers_ok_past_end [simp]: "blockers_ok (st\<lparr>past_end := p\<rparr>) = blockers_ok st"
  by (simp add: blockers_ok_def)

lemma handles_attached_past_end [simp]:
  "handles_attached (st\<lparr>past_end := p\<rparr>) = handles_attached st"
  by (simp add: handles_attached_def)

lemma held_past_end [simp]: "held (st\<lparr>past_end := p\<rparr>) h = held st h"
  by (simp add: held_def)

lemma consistent_past_end [simp]: "consistent (st\<lparr>past_end := p\<rparr>) = consistent st"
  by (simp add: consistent_def)

lemma well_formed_past_end [simp]: "well_formed (st\<lparr>past_end := p\<rparr>) = well_formed st"
  by (simp add: well_formed_def)

lemma registries_ok_past_end [simp]: "registries_ok (st\<lparr>past_end := p\<rparr>) = registries_ok st"
  by (simp add: registries_ok_def)

lemma safe_callbacks_past_end [simp]:
  "safe_callbacks (st\<lparr>past_end := p\<rparr>) = safe_callbacks st"
  by (simp add: safe_callbacks_def)

subsection \<open>Releasing handles\<close>

lemma detach_all_Nil [simp]: "detach_all [] m = m"
  by (rule ext) (simp add: detach_all_def option.map_ident)

lemma detach_all_Cons: "detach_all hs (detach_all [h] m) = detach_all (h # hs) m"
  by (rule ext) (auto simp: detach_all_def option.map_comp o_def conj_commute intro!: option.map_cong)

lemma release_all_Nil [simp]: "release_all [] m = m"
  by (rule ext) (simp add: release_all_def map_option_case split: option.splits)

lemma release_all_Cons: "release_all hs (release_all [h] m) = release_all (h # hs) m"
  by (rule ext) (auto simp: release_all_def option.map_comp o_def conj_commute intro!: option.map_cong)

lemma free_all_Nil [simp]: "free_all [] m = m"
  by (rule ext) (simp add: free_all_def)

lemma free_all_Cons: "free_all hs (free_all [h] m) = free_all (h # hs) m"
  by (rule ext) (simp add: free_all_def)

lemma subjects_ok_distinct:
  "subjects_ok st \<Longrightarrow> subjects st s = Some sub \<Longrightarrow> distinct (m_observers sub)"
  unfolding subjects_ok_def by blast

lemma subjects_ok_member:
  "subjects_ok st \<Longrightarrow> subjects st s = Some sub \<Longrightarrow> h \<in> set (m_observers sub) \<Longrightarrow>
     \<exists>ob. heap st h = Some ob \<and> m_subject ob = s"
  unfolding subjects_ok_def by blast

lemma owners_ok_distinct: "owners_ok st \<Longrightarrow> owners st ow = Some os \<Longrightarrow> distinct os"
  unfolding owners_ok_def by blast

lemma owners_ok_member:
  "owners_ok st \<Longrightarrow> owners st ow = Some os \<Longrightarrow> h \<in> set os \<Longrightarrow>
     \<exists>ob. heap st h = Some ob \<and> m_owner ob = ow"
  unfolding owners_ok_def by blast

lemma handles_owned_owner:
  "handles_owned st \<Longrightarrow> heap st h = Some ob \<Longrightarrow>
     \<exists>os. owners st (m_owner ob) = Some os \<and> h \<in> set os"
  unfolding handles_owned_def by blast

lemma blockers_ok_distinct:
  "blockers_ok st \<Longrightarrow> blockers st b = Some bl \<Longrightarrow> distinct (blocked_observers bl)"
  unfolding blockers_ok_def by blast

lemma blockers_ok_member:
  "blockers_ok st \<Longrightarrow> blockers st b = Some bl \<Longrightarrow> h \<in> set (blocked_observers bl) \<Longrightarrow>
     \<exists>ob. heap st h = Some ob \<and> m_subject ob = blocked_subject bl"
  unfolding blockers_ok_def by blast

lemma handles_attached_subject:
  "handles_attached st \<Longrightarrow> heap st h = Some ob \<Longrightarrow>
     \<exists>sub. subjects st (m_subject ob) = Some sub \<and> h \<in> set (m_observers sub)"
  unfolding handles_attached_def by blast

lemma subjects_ok_detach:
  "subjects_ok st \<Longrightarrow> subjects_ok (st\<lparr>subjects := detach_all hs (subjects st)\<rparr>)"
  by (fastforce simp: subjects_ok_def detach_all_def)

text \<open>One call of \<^verbatim>\<open>remove_from_subject\<close> in a world whose sequences are in order.\<close>

lemma remove_from_subject_detach:
  assumes ok: "subjects_ok st" and r: "remove_from_subject st h = Inr st'"
  shows "\<exists>p. st' = st\<lparr>subjects := detach_all [h] (subjects st), past_end := p\<rparr>"
proof -
  from r obtain ob sub where ob: "heap st h = Some ob" and sub: "subjects st (m_subject ob) = Some sub"
    and st': "st' = st\<lparr>subjects := (subjects st)
        (m_subject ob \<mapsto> sub\<lparr>m_observers := remove_observer h (m_observers sub)\<rparr>),
        past_end := (past_end st)
          (m_subject ob := left_past_end h (m_observers sub) (past_end st (m_subject ob)))\<rparr>"
    by (auto simp: remove_from_subject_def split: option.splits)
  have "(subjects st)(m_subject ob \<mapsto> sub\<lparr>m_observers := remove_observer h (m_observers sub)\<rparr>) =
      detach_all [h] (subjects st)"
  proof (rule ext)
    fix s
    show "((subjects st)(m_subject ob \<mapsto> sub\<lparr>m_observers := remove_observer h (m_observers sub)\<rparr>)) s =
        detach_all [h] (subjects st) s"
    proof (cases "s = m_subject ob")
      case True
      from ok sub have "distinct (m_observers sub)" by (rule subjects_ok_distinct)
      then show ?thesis using True sub
        by (simp add: detach_all_def remove_observer_distinct)
    next
      case False
      show ?thesis
      proof (cases "subjects st s")
        case None
        then show ?thesis using False by (simp add: detach_all_def)
      next
        case (Some sub')
        have "h \<notin> set (m_observers sub')"
        proof
          assume "h \<in> set (m_observers sub')"
          with subjects_ok_member [OF ok Some] obtain ob' where
            "heap st h = Some ob'" "m_subject ob' = s"
            by blast
          with ob False show False by simp
        qed
        then have "filter (\<lambda>x. x \<noteq> h) (m_observers sub') = m_observers sub'"
          by (rule filter_absent)
        then show ?thesis using False Some by (simp add: detach_all_def)
      qed
    qed
  qed
  with st' have "st' = st\<lparr>subjects := detach_all [h] (subjects st),
      past_end := (past_end st)
        (m_subject ob := left_past_end h (m_observers sub) (past_end st (m_subject ob)))\<rparr>"
    by simp
  then show ?thesis by blast
qed

lemma for_each_remove_from_subject:
  "subjects_ok st \<Longrightarrow> for_each remove_from_subject hs st = Inr st' \<Longrightarrow>
     \<exists>p. st' = st\<lparr>subjects := detach_all hs (subjects st), past_end := p\<rparr>"
proof (induction hs arbitrary: st)
  case Nil
  then have "st' = st\<lparr>subjects := detach_all [] (subjects st), past_end := past_end st\<rparr>"
    by simp
  then show ?case by blast
next
  case (Cons h hs)
  from Cons.prems(2) obtain st1 where s1: "remove_from_subject st h = Inr st1"
    and rest: "for_each remove_from_subject hs st1 = Inr st'"
    by (auto split: sum.splits)
  from remove_from_subject_detach [OF Cons.prems(1) s1] obtain p1 where
    st1: "st1 = st\<lparr>subjects := detach_all [h] (subjects st), past_end := p1\<rparr>"
    by blast
  have "subjects_ok st1"
    unfolding st1 using subjects_ok_detach [OF Cons.prems(1), of "[h]"] by simp
  from Cons.IH [OF this rest] obtain p where
    "st' = st1\<lparr>subjects := detach_all hs (subjects st1), past_end := p\<rparr>"
    by blast
  then have "st' = st\<lparr>subjects := detach_all (h # hs) (subjects st), past_end := p\<rparr>"
    by (simp add: st1 detach_all_Cons)
  then show ?case by blast
qed

lemma for_each_delete_handle:
  "for_each delete_handle hs st = Inr st' \<Longrightarrow>
     st' = st\<lparr>heap := free_all hs (heap st), deleted := deleted st + mset hs\<rparr> \<and>
     distinct hs \<and> (\<forall>h \<in> set hs. heap st h \<noteq> None)"
proof (induction hs arbitrary: st)
  case Nil
  then show ?case by simp
next
  case (Cons h hs)
  from Cons.prems obtain st1 where s1: "delete_handle st h = Inr st1"
    and rest: "for_each delete_handle hs st1 = Inr st'"
    by (auto split: sum.splits)
  from s1 have h: "heap st h \<noteq> None"
    and st1: "st1 = st\<lparr>heap := free_all [h] (heap st), deleted := deleted st + {#h#}\<rparr>"
    by (auto simp: delete_handle_def free_all_def fun_upd_def split: option.splits)
  from Cons.IH [OF rest] have ih:
    "st' = st1\<lparr>heap := free_all hs (heap st1), deleted := deleted st1 + mset hs\<rparr>"
    "distinct hs" "\<forall>x \<in> set hs. heap st1 x \<noteq> None"
    by blast+
  from ih(3) have "h \<notin> set hs" "\<forall>x \<in> set hs. heap st x \<noteq> None"
    by (auto simp: st1 free_all_def split: if_splits)
  with ih(1,2) h show ?case
    by (simp add: st1 free_all_Cons)
qed

lemma filter_disjoint: "set xs \<inter> set hs = {} \<Longrightarrow> filter (\<lambda>h. h \<notin> set hs) xs = xs"
  by (induction xs) auto

lemma owners_ok_release:
  "owners_ok st \<Longrightarrow>
     owners_ok (st\<lparr>owners := release_all hs (owners st), heap := free_all hs (heap st)\<rparr>)"
  by (fastforce simp: owners_ok_def release_all_def free_all_def)

text \<open>One call of \<^verbatim>\<open>observer_owner::remove_observer\<close> in a world whose sets are in order.\<close>

lemma owner_remove_observer_release:
  assumes ok: "owners_ok st" and r: "owner_remove_observer st ow h = Inr st'"
  shows "st' = st\<lparr>owners := release_all [h] (owners st), heap := free_all [h] (heap st),
                 deleted := deleted st + {#h#}\<rparr>"
proof -
  from r obtain os where os: "owners st ow = Some os" "h \<in> set os"
    and st': "st' = st\<lparr>owners := (owners st)(ow \<mapsto> remove1 h os), heap := (heap st)(h := None),
                 deleted := deleted st + {#h#}\<rparr>"
    by (auto simp: owner_remove_observer_def delete_handle_def split: option.splits if_splits)
  from owners_ok_member [OF ok os] obtain ob where ob: "heap st h = Some ob" "m_owner ob = ow"
    by blast
  have "(owners st)(ow \<mapsto> remove1 h os) = release_all [h] (owners st)"
  proof (rule ext)
    fix x
    show "((owners st)(ow \<mapsto> remove1 h os)) x = release_all [h] (owners st) x"
    proof (cases "x = ow")
      case True
      then show ?thesis
        using os(1) owners_ok_distinct [OF ok os(1)]
        by (simp add: release_all_def remove1_distinct)
    next
      case False
      show ?thesis
      proof (cases "owners st x")
        case None
        then show ?thesis using False by (simp add: release_all_def)
      next
        case (Some os')
        have "h \<notin> set os'"
          using owners_ok_member [OF ok Some, of h] ob False by auto
        then have "filter (\<lambda>x. x \<noteq> h) os' = os'" by (rule filter_absent)
        then show ?thesis using False Some by (simp add: release_all_def)
      qed
    qed
  qed
  moreover have "(heap st)(h := None) = free_all [h] (heap st)"
    by (rule ext) (simp add: free_all_def)
  ultimately show ?thesis using st' by simp
qed

lemma for_each_remove_from_owner:
  "owners_ok st \<Longrightarrow> for_each remove_from_owner hs st = Inr st' \<Longrightarrow>
     st' = st\<lparr>owners := release_all hs (owners st), heap := free_all hs (heap st),
             deleted := deleted st + mset hs\<rparr>"
proof (induction hs arbitrary: st)
  case Nil
  then show ?case by simp
next
  case (Cons h hs)
  from Cons.prems(2) obtain st1 where s1: "remove_from_owner st h = Inr st1"
    and rest: "for_each remove_from_owner hs st1 = Inr st'"
    by (auto split: sum.splits)
  from s1 obtain ow where "owner_remove_observer st ow h = Inr st1"
    by (auto simp: remove_from_owner_def split: option.splits)
  with Cons.prems(1) have st1: "st1 = st\<lparr>owners := release_all [h] (owners st),
      heap := free_all [h] (heap st), deleted := deleted st + {#h#}\<rparr>"
    by (rule owner_remove_observer_release)
  have "owners_ok st1"
    using owners_ok_release [OF Cons.prems(1), of "[h]"] by (simp add: st1 owners_ok_def)
  from Cons.IH [OF this rest] show ?case
    by (simp add: st1 release_all_Cons free_all_Cons)
qed

lemma disconnect_released:
  assumes "subjects_ok st" "owners_ok st" "disconnect st ow h = Inr st'"
  shows "\<exists>p. st' = (released [h] st)\<lparr>past_end := p\<rparr>"
proof -
  from assms(3) obtain st1 where s1: "remove_from_subject st h = Inr st1"
    and s2: "owner_remove_observer st1 ow h = Inr st'"
    by (auto simp: disconnect_def split: option.splits sum.splits)
  from remove_from_subject_detach [OF assms(1) s1] obtain p where
    st1: "st1 = st\<lparr>subjects := detach_all [h] (subjects st), past_end := p\<rparr>"
    by blast
  have "owners_ok st1"
    using assms(2) by (simp add: st1 owners_ok_def)
  from owner_remove_observer_release [OF this s2] have "st' = (released [h] st)\<lparr>past_end := p\<rparr>"
    by (simp add: st1 released_def)
  then show ?thesis by blast
qed

lemma destroy_owner_released:
  assumes "subjects_ok st" "owners_ok st" "owners st ow = Some os"
    "destroy_owner st ow = Inr st'"
  shows "\<exists>p. st' = (released os st)\<lparr>owners := (owners (released os st))(ow := None),
                                     past_end := p\<rparr>"
    and "distinct os"
proof -
  from assms(3,4) obtain st1 st2 where s1: "for_each remove_from_subject os st = Inr st1"
    and s2: "for_each delete_handle os st1 = Inr st2"
    and st': "st' = st2\<lparr>owners := (owners st2)(ow := None)\<rparr>"
    by (auto simp: destroy_owner_def split: sum.splits)
  from for_each_remove_from_subject [OF assms(1) s1] obtain p where
    st1: "st1 = st\<lparr>subjects := detach_all os (subjects st), past_end := p\<rparr>"
    by blast
  from for_each_delete_handle [OF s2]
  have st2: "st2 = st1\<lparr>heap := free_all os (heap st1), deleted := deleted st1 + mset os\<rparr>"
    by blast
  show "distinct os"
    using assms(2,3) by (rule owners_ok_distinct)
  have "(owners st)(ow := None) = (release_all os (owners st))(ow := None)"
  proof (rule ext)
    fix x
    show "((owners st)(ow := None)) x = ((release_all os (owners st))(ow := None)) x"
    proof (cases "owners st x")
      case None
      then show ?thesis by (simp add: release_all_def)
    next
      case (Some os')
      show ?thesis
      proof (cases "x = ow")
        case True
        then show ?thesis by simp
      next
        case False
        have "set os' \<inter> set os = {}"
          using owners_ok_member [OF assms(2) Some] owners_ok_member [OF assms(2,3)] False
          by fastforce
        then have "filter (\<lambda>h. h \<notin> set os) os' = os'" by (rule filter_disjoint)
        then show ?thesis using Some False by (simp add: release_all_def)
      qed
    qed
  qed
  then have "st' = (released os st)\<lparr>owners := (owners (released os st))(ow := None),
                                   past_end := p\<rparr>"
    by (simp add: st' st2 st1 released_def)
  then show "\<exists>p. st' = (released os st)\<lparr>owners := (owners (released os st))(ow := None),
                                       past_end := p\<rparr>"
    by blast
qed

lemma destroy_subject_released:
  assumes "subjects_ok st" "owners_ok st" "subjects st s = Some sub"
    "destroy_subject st s = Inr st'"
  shows "st' = (released (m_observers sub) st)
           \<lparr>subjects := (subjects (released (m_observers sub) st))(s := None)\<rparr>"
proof -
  let ?v = "m_observers sub"
  from assms(3,4) obtain st1 where s1: "for_each remove_from_owner ?v st = Inr st1"
    and st': "st' = st1\<lparr>subjects := (subjects st1)(s := None)\<rparr>"
    by (auto simp: destroy_subject_def split: sum.splits)
  have st1: "st1 = st\<lparr>owners := release_all ?v (owners st), heap := free_all ?v (heap st),
             deleted := deleted st + mset ?v\<rparr>"
    using assms(2) s1 by (rule for_each_remove_from_owner)
  have "(subjects st)(s := None) = (detach_all ?v (subjects st))(s := None)"
  proof (rule ext)
    fix x
    show "((subjects st)(s := None)) x = ((detach_all ?v (subjects st))(s := None)) x"
    proof (cases "subjects st x")
      case None
      then show ?thesis by (simp add: detach_all_def)
    next
      case (Some sub')
      show ?thesis
      proof (cases "x = s")
        case True
        then show ?thesis by simp
      next
        case False
        have "set (m_observers sub') \<inter> set ?v = {}"
          using subjects_ok_member [OF assms(1) Some] subjects_ok_member [OF assms(1,3)] False
          by fastforce
        then have "filter (\<lambda>h. h \<notin> set ?v) (m_observers sub') = m_observers sub'"
          by (rule filter_disjoint)
        then show ?thesis using Some False by (simp add: detach_all_def)
      qed
    qed
  qed
  then show ?thesis
    by (simp add: st' st1 released_def)
qed

subsection \<open>Releasing handles keeps the registries consistent\<close>

lemma held_released [simp]: "held (released hs st) h = held st h"
  by (simp add: held_def released_def)

lemma subjects_ok_released:
  assumes "subjects_ok st"
  shows "subjects_ok (released hs st)"
  unfolding subjects_ok_def
proof (intro allI impI)
  fix s sub'
  assume "subjects (released hs st) s = Some sub'"
  then obtain sub where sub: "subjects st s = Some sub"
    and v: "m_observers sub' = filter (\<lambda>h. h \<notin> set hs) (m_observers sub)"
    by (auto simp: released_def detach_all_def)
  have "\<exists>ob. heap (released hs st) h = Some ob \<and> m_subject ob = s"
    if "h \<in> set (m_observers sub')" for h
    using that v subjects_ok_member [OF assms sub, of h]
    by (auto simp: released_def free_all_def)
  then show "distinct (m_observers sub') \<and>
      (\<forall>h \<in> set (m_observers sub'). \<exists>ob. heap (released hs st) h = Some ob \<and> m_subject ob = s)"
    using v subjects_ok_distinct [OF assms sub] by simp
qed

lemma owners_ok_released:
  assumes "owners_ok st"
  shows "owners_ok (released hs st)"
  unfolding owners_ok_def
proof (intro allI impI)
  fix ow os'
  assume "owners (released hs st) ow = Some os'"
  then obtain os where os: "owners st ow = Some os"
    and v: "os' = filter (\<lambda>h. h \<notin> set hs) os"
    by (auto simp: released_def release_all_def)
  have "\<exists>ob. heap (released hs st) h = Some ob \<and> m_owner ob = ow"
    if "h \<in> set os'" for h
    using that v owners_ok_member [OF assms os, of h]
    by (auto simp: released_def free_all_def)
  then show "distinct os' \<and>
      (\<forall>h \<in> set os'. \<exists>ob. heap (released hs st) h = Some ob \<and> m_owner ob = ow)"
    using v owners_ok_distinct [OF assms os] by simp
qed

lemma handles_owned_released:
  assumes "handles_owned st"
  shows "handles_owned (released hs st)"
  unfolding handles_owned_def
proof (intro allI impI)
  fix h ob
  assume "heap (released hs st) h = Some ob"
  then have h: "h \<notin> set hs" "heap st h = Some ob"
    by (auto simp: released_def free_all_def split: if_splits)
  from handles_owned_owner [OF assms h(2)] obtain os where
    "owners st (m_owner ob) = Some os" "h \<in> set os"
    by blast
  with h(1) show "\<exists>os. owners (released hs st) (m_owner ob) = Some os \<and> h \<in> set os"
    by (simp add: released_def release_all_def)
qed

lemma blockers_ok_released:
  assumes "blockers_ok st" "\<forall>h \<in> set hs. \<not> held st h"
  shows "blockers_ok (released hs st)"
  unfolding blockers_ok_def
proof (intro allI impI)
  fix b bl
  assume "blockers (released hs st) b = Some bl"
  then have bl: "blockers st b = Some bl"
    by (simp add: released_def)
  have "\<exists>ob. heap (released hs st) h = Some ob \<and> m_subject ob = blocked_subject bl"
    if "h \<in> set (blocked_observers bl)" for h
  proof -
    from that bl have "held st h" by (auto simp: held_def)
    with assms(2) have "h \<notin> set hs" by blast
    with blockers_ok_member [OF assms(1) bl that] show ?thesis
      by (simp add: released_def free_all_def)
  qed
  then show "distinct (blocked_observers bl) \<and>
      (\<forall>h \<in> set (blocked_observers bl).
         \<exists>ob. heap (released hs st) h = Some ob \<and> m_subject ob = blocked_subject bl)"
    using blockers_ok_distinct [OF assms(1) bl] by simp
qed

lemma handles_attached_released:
  assumes "handles_attached st"
  shows "handles_attached (released hs st)"
  unfolding handles_attached_def
proof (intro allI impI)
  fix h ob
  assume "heap (released hs st) h = Some ob"
  then have h: "h \<notin> set hs" "heap st h = Some ob"
    by (auto simp: released_def free_all_def split: if_splits)
  from handles_attached_subject [OF assms h(2)] obtain sub where
    "subjects st (m_subject ob) = Some sub" "h \<in> set (m_observers sub)"
    by blast
  with h(1) show "\<exists>sub. subjects (released hs st) (m_subject ob) = Some sub \<and>
      h \<in> set (m_observers sub)"
    by (simp add: released_def detach_all_def)
qed

lemma consistent_released:
  "consistent st \<Longrightarrow> \<forall>h \<in> set hs. \<not> held st h \<Longrightarrow> consistent (released hs st)"
  by (simp add: consistent_def subjects_ok_released owners_ok_released handles_owned_released
      blockers_ok_released)

lemma well_formed_released: "well_formed st \<Longrightarrow> well_formed (released hs st)"
  by (simp add: well_formed_def consistent_released handles_attached_released)

lemma registries_ok_released: "registries_ok st \<Longrightarrow> registries_ok (released hs st)"
  by (simp add: registries_ok_def subjects_ok_released owners_ok_released handles_owned_released)

lemma consistent_registries_ok: "consistent st \<Longrightarrow> registries_ok st"
  by (simp add: consistent_def registries_ok_def)

text \<open>An owner that holds nothing, or a subject that lists nothing, goes.\<close>

lemma consistent_drop_owner:
  assumes "consistent st" "owners st ow = Some []"
  shows "consistent (st\<lparr>owners := (owners st)(ow := None)\<rparr>)"
proof -
  have "handles_owned (st\<lparr>owners := (owners st)(ow := None)\<rparr>)"
    unfolding handles_owned_def
  proof (intro allI impI)
    fix h ob
    assume "heap (st\<lparr>owners := (owners st)(ow := None)\<rparr>) h = Some ob"
    then have "heap st h = Some ob" by simp
    from handles_owned_owner [OF _ this] assms(1) obtain os where
      os: "owners st (m_owner ob) = Some os" "h \<in> set os"
      by (auto simp: consistent_def)
    with assms(2) have "m_owner ob \<noteq> ow" by auto
    with os show "\<exists>os. owners (st\<lparr>owners := (owners st)(ow := None)\<rparr>) (m_owner ob) = Some os \<and>
        h \<in> set os"
      by simp
  qed
  moreover have "owners_ok (st\<lparr>owners := (owners st)(ow := None)\<rparr>)"
    using assms(1) by (simp add: consistent_def owners_ok_def)
  moreover have "subjects_ok (st\<lparr>owners := (owners st)(ow := None)\<rparr>)"
    using assms(1) by (simp add: consistent_def subjects_ok_def)
  moreover have "blockers_ok (st\<lparr>owners := (owners st)(ow := None)\<rparr>)"
    using assms(1) by (simp add: consistent_def blockers_ok_def)
  ultimately show ?thesis by (simp add: consistent_def)
qed

lemma consistent_drop_subject:
  assumes "consistent st"
  shows "consistent (st\<lparr>subjects := (subjects st)(s := None)\<rparr>)"
proof -
  have "subjects_ok (st\<lparr>subjects := (subjects st)(s := None)\<rparr>)"
    using assms by (simp add: consistent_def subjects_ok_def)
  moreover have "owners_ok (st\<lparr>subjects := (subjects st)(s := None)\<rparr>)"
    using assms by (simp add: consistent_def owners_ok_def)
  moreover have "handles_owned (st\<lparr>subjects := (subjects st)(s := None)\<rparr>)"
    using assms by (simp add: consistent_def handles_owned_def)
  moreover have "blockers_ok (st\<lparr>subjects := (subjects st)(s := None)\<rparr>)"
    using assms by (simp add: consistent_def blockers_ok_def)
  ultimately show ?thesis by (simp add: consistent_def)
qed

lemma registries_ok_drop_owner:
  assumes "registries_ok st" "owners st ow = Some []"
  shows "registries_ok (st\<lparr>owners := (owners st)(ow := None)\<rparr>)"
proof -
  have "handles_owned (st\<lparr>owners := (owners st)(ow := None)\<rparr>)"
    unfolding handles_owned_def
  proof (intro allI impI)
    fix h ob
    assume "heap (st\<lparr>owners := (owners st)(ow := None)\<rparr>) h = Some ob"
    then have "heap st h = Some ob" by simp
    from handles_owned_owner [OF _ this] assms(1) obtain os where
      os: "owners st (m_owner ob) = Some os" "h \<in> set os"
      by (auto simp: registries_ok_def)
    with assms(2) have "m_owner ob \<noteq> ow" by auto
    with os show "\<exists>os. owners (st\<lparr>owners := (owners st)(ow := None)\<rparr>) (m_owner ob) = Some os \<and>
        h \<in> set os"
      by simp
  qed
  moreover have "owners_ok (st\<lparr>owners := (owners st)(ow := None)\<rparr>)"
    using assms(1) by (simp add: registries_ok_def owners_ok_def)
  moreover have "subjects_ok (st\<lparr>owners := (owners st)(ow := None)\<rparr>)"
    using assms(1) by (simp add: registries_ok_def subjects_ok_def)
  ultimately show ?thesis by (simp add: registries_ok_def)
qed

lemma registries_ok_drop_subject:
  assumes "registries_ok st"
  shows "registries_ok (st\<lparr>subjects := (subjects st)(s := None)\<rparr>)"
proof -
  have "subjects_ok (st\<lparr>subjects := (subjects st)(s := None)\<rparr>)"
    using assms by (simp add: registries_ok_def subjects_ok_def)
  moreover have "owners_ok (st\<lparr>subjects := (subjects st)(s := None)\<rparr>)"
    using assms by (simp add: registries_ok_def owners_ok_def)
  moreover have "handles_owned (st\<lparr>subjects := (subjects st)(s := None)\<rparr>)"
    using assms by (simp add: registries_ok_def handles_owned_def)
  ultimately show ?thesis by (simp add: registries_ok_def)
qed

lemma well_formed_drop_owner:
  assumes "well_formed st" "owners st ow = Some []"
  shows "well_formed (st\<lparr>owners := (owners st)(ow := None)\<rparr>)"
  using assms consistent_drop_owner [of st ow]
  by (simp add: well_formed_def handles_attached_def held_def)

lemma well_formed_drop_subject:
  assumes "well_formed st" "subjects st s = Some sub" "m_observers sub = []"
  shows "well_formed (st\<lparr>subjects := (subjects st)(s := None)\<rparr>)"
proof -
  have "handles_attached (st\<lparr>subjects := (subjects st)(s := None)\<rparr>)"
    unfolding handles_attached_def
  proof (intro allI impI)
    fix h ob
    assume "heap (st\<lparr>subjects := (subjects st)(s := None)\<rparr>) h = Some ob"
    then have "heap st h = Some ob" by simp
    from handles_attached_subject [OF _ this] assms(1) obtain sub' where
      sub': "subjects st (m_subject ob) = Some sub'" "h \<in> set (m_observers sub')"
      by (auto simp: well_formed_def)
    with assms(2,3) have "m_subject ob \<noteq> s" by auto
    with sub' show "\<exists>sub. subjects (st\<lparr>subjects := (subjects st)(s := None)\<rparr>) (m_subject ob) = Some sub \<and>
        h \<in> set (m_observers sub)"
      by simp
  qed
  then show ?thesis
    using assms(1) consistent_drop_subject [of st s]
    by (simp add: well_formed_def held_def)
qed

lemma consistent_disconnect:
  assumes "consistent st" "\<not> held st h" "disconnect st ow h = Inr st'"
  shows "consistent st'"
proof -
  have "\<exists>p. st' = (released [h] st)\<lparr>past_end := p\<rparr>"
    using assms(1,3) by (intro disconnect_released) (simp_all add: consistent_def)
  then show ?thesis
    using consistent_released [OF assms(1), of "[h]"] assms(2) by auto
qed

lemma consistent_destroy_owner:
  assumes "consistent st" "owners st ow = Some os" "\<forall>h \<in> set os. \<not> held st h"
    "destroy_owner st ow = Inr st'"
  shows "consistent st'"
proof -
  have ok: "subjects_ok st" "owners_ok st"
    using assms(1) by (simp_all add: consistent_def)
  from destroy_owner_released(1) [OF ok assms(2,4)] obtain p where
    d: "st' = (released os st)\<lparr>owners := (owners (released os st))(ow := None), past_end := p\<rparr>"
    by blast
  have "owners (released os st) ow = Some []"
    using assms(2) by (simp add: released_def release_all_def)
  with consistent_released [OF assms(1,3)]
  have "consistent ((released os st)\<lparr>owners := (owners (released os st))(ow := None)\<rparr>)"
    by (rule consistent_drop_owner)
  then show ?thesis
    unfolding d by simp
qed

lemma consistent_destroy_subject:
  assumes "consistent st" "subjects st s = Some sub" "\<forall>h \<in> set (m_observers sub). \<not> held st h"
    "destroy_subject st s = Inr st'"
  shows "consistent st'"
proof -
  have ok: "subjects_ok st" "owners_ok st"
    using assms(1) by (simp_all add: consistent_def)
  note d = destroy_subject_released [OF ok assms(2,4)]
  from consistent_released [OF assms(1,3)] show ?thesis
    unfolding d by (rule consistent_drop_subject)
qed

subsection \<open>When the destructors return\<close>

lemma for_each_remove_from_subject_returns:
  "\<forall>h \<in> set hs. \<exists>ob. heap st h = Some ob \<and> subjects st (m_subject ob) \<noteq> None \<Longrightarrow>
     \<exists>st'. for_each remove_from_subject hs st = Inr st'"
proof (induction hs arbitrary: st)
  case Nil
  then show ?case by simp
next
  case (Cons h hs)
  from Cons.prems obtain ob sub where ob: "heap st h = Some ob"
    "subjects st (m_subject ob) = Some sub"
    by auto
  let ?st1 = "st\<lparr>subjects := (subjects st)
      (m_subject ob \<mapsto> sub\<lparr>m_observers := remove_observer h (m_observers sub)\<rparr>),
      past_end := (past_end st)
        (m_subject ob := left_past_end h (m_observers sub) (past_end st (m_subject ob)))\<rparr>"
  have s1: "remove_from_subject st h = Inr ?st1"
    using ob by (simp add: remove_from_subject_def)
  have "\<forall>h \<in> set hs. \<exists>ob. heap ?st1 h = Some ob \<and> subjects ?st1 (m_subject ob) \<noteq> None"
    using Cons.prems by auto
  from Cons.IH [OF this] s1 show ?case by simp
qed

lemma for_each_delete_handle_returns:
  "distinct hs \<Longrightarrow> \<forall>h \<in> set hs. heap st h \<noteq> None \<Longrightarrow>
     \<exists>st'. for_each delete_handle hs st = Inr st'"
proof (induction hs arbitrary: st)
  case Nil
  then show ?case by simp
next
  case (Cons h hs)
  from Cons.prems obtain ob where ob: "heap st h = Some ob" by auto
  let ?st1 = "st\<lparr>heap := (heap st)(h := None), deleted := deleted st + {#h#}\<rparr>"
  have s1: "delete_handle st h = Inr ?st1"
    using ob by (simp add: delete_handle_def)
  have "\<forall>x \<in> set hs. heap ?st1 x \<noteq> None"
    using Cons.prems by auto
  from Cons.IH [OF _ this] Cons.prems(1) s1 show ?case by simp
qed

lemma for_each_remove_from_owner_returns:
  "distinct hs \<Longrightarrow>
   \<forall>h \<in> set hs. \<exists>ob os. heap st h = Some ob \<and> owners st (m_owner ob) = Some os \<and> h \<in> set os \<Longrightarrow>
     \<exists>st'. for_each remove_from_owner hs st = Inr st'"
proof (induction hs arbitrary: st)
  case Nil
  then show ?case by simp
next
  case (Cons h hs)
  from Cons.prems obtain ob os where ob: "heap st h = Some ob"
    "owners st (m_owner ob) = Some os" "h \<in> set os"
    by auto
  let ?st1 = "st\<lparr>owners := (owners st)(m_owner ob \<mapsto> remove1 h os),
      heap := (heap st)(h := None), deleted := deleted st + {#h#}\<rparr>"
  have s1: "remove_from_owner st h = Inr ?st1"
    using ob by (simp add: remove_from_owner_def owner_remove_observer_def delete_handle_def)
  have "\<exists>ob os. heap ?st1 x = Some ob \<and> owners ?st1 (m_owner ob) = Some os \<and> x \<in> set os"
    if "x \<in> set hs" for x
  proof -
    from that Cons.prems(1) have xh: "x \<noteq> h" by auto
    from that Cons.prems(2) have "\<exists>ob os. heap st x = Some ob \<and>
        owners st (m_owner ob) = Some os \<and> x \<in> set os"
      by simp
    with xh obtain ob' os' where x: "x \<noteq> h" "heap st x = Some ob'"
      "owners st (m_owner ob') = Some os'" "x \<in> set os'"
      by blast
    show ?thesis
    proof (cases "m_owner ob' = m_owner ob")
      case True
      with x ob show ?thesis by auto
    next
      case False
      with x show ?thesis by auto
    qed
  qed
  then have "\<forall>h \<in> set hs. \<exists>ob os. heap ?st1 h = Some ob \<and> owners ?st1 (m_owner ob) = Some os \<and>
      h \<in> set os"
    by blast
  from Cons.IH [OF _ this] Cons.prems(1) s1 show ?case by simp
qed

lemma destroy_owner_returns:
  assumes "subjects_ok st" "owners_ok st" "owners st ow = Some os"
    "\<forall>h \<in> set os. \<exists>ob. heap st h = Some ob \<and> subjects st (m_subject ob) \<noteq> None"
  shows "\<exists>st'. destroy_owner st ow = Inr st'"
proof -
  from for_each_remove_from_subject_returns [OF assms(4)] obtain st1 where
    s1: "for_each remove_from_subject os st = Inr st1"
    by blast
  from for_each_remove_from_subject [OF assms(1) s1] obtain p where
    st1: "st1 = st\<lparr>subjects := detach_all os (subjects st), past_end := p\<rparr>"
    by blast
  have "\<forall>h \<in> set os. heap st1 h \<noteq> None"
    using owners_ok_member [OF assms(2,3)] by (fastforce simp: st1)
  from for_each_delete_handle_returns [OF owners_ok_distinct [OF assms(2,3)] this]
  obtain st2 where "for_each delete_handle os st1 = Inr st2"
    by blast
  with s1 assms(3) show ?thesis
    by (simp add: destroy_owner_def)
qed

lemma destroy_subject_returns:
  assumes "subjects_ok st" "handles_owned st" "subjects st s = Some sub"
  shows "\<exists>st'. destroy_subject st s = Inr st'"
proof -
  have "\<forall>h \<in> set (m_observers sub).
      \<exists>ob os. heap st h = Some ob \<and> owners st (m_owner ob) = Some os \<and> h \<in> set os"
    using subjects_ok_member [OF assms(1,3)] handles_owned_owner [OF assms(2)]
    by fastforce
  from for_each_remove_from_owner_returns [OF subjects_ok_distinct [OF assms(1,3)] this]
  obtain st1 where "for_each remove_from_owner (m_observers sub) st = Inr st1"
    by blast
  with assms(3) show ?thesis
    by (simp add: destroy_subject_def)
qed

text \<open>
  The destructor of the set may delete the handles in any order: the outcome is the
  same.
\<close>

lemma for_each_delete_handle_Inl: "for_each delete_handle hs st = Inl e \<Longrightarrow> e = DoubleFree"
  by (induction hs arbitrary: st) (auto simp: delete_handle_def split: option.splits sum.splits)

lemma for_each_delete_handle_Inr:
  "(for_each delete_handle hs st = Inr st') =
     (distinct hs \<and> (\<forall>h \<in> set hs. heap st h \<noteq> None) \<and>
      st' = st\<lparr>heap := free_all hs (heap st), deleted := deleted st + mset hs\<rparr>)"
proof
  assume "for_each delete_handle hs st = Inr st'"
  from for_each_delete_handle [OF this]
  show "distinct hs \<and> (\<forall>h \<in> set hs. heap st h \<noteq> None) \<and>
      st' = st\<lparr>heap := free_all hs (heap st), deleted := deleted st + mset hs\<rparr>"
    by blast
next
  assume a: "distinct hs \<and> (\<forall>h \<in> set hs. heap st h \<noteq> None) \<and>
      st' = st\<lparr>heap := free_all hs (heap st), deleted := deleted st + mset hs\<rparr>"
  then obtain st'' where r: "for_each delete_handle hs st = Inr st''"
    using for_each_delete_handle_returns [of hs st] by blast
  from for_each_delete_handle [OF r] a have "st'' = st'" by simp
  with r show "for_each delete_handle hs st = Inr st'" by simp
qed

lemma for_each_delete_handle_order:
  assumes "mset hs = mset hs'"
  shows "for_each delete_handle hs st = for_each delete_handle hs' st"
proof -
  have d: "distinct hs = distinct hs'" and e: "set hs = set hs'"
    using assms by (metis mset_eq_imp_distinct_iff, metis mset_eq_setD)
  have f: "free_all hs (heap st) = free_all hs' (heap st)"
    using e by (simp add: free_all_def)
  have same: "(for_each delete_handle hs st = Inr st') = (for_each delete_handle hs' st = Inr st')"
    for st'
    using assms d e f by (simp add: for_each_delete_handle_Inr)
  show ?thesis
  proof (cases "for_each delete_handle hs st")
    case (Inr st')
    with same [of st'] show ?thesis by simp
  next
    case (Inl e)
    show ?thesis
    proof (cases "for_each delete_handle hs' st")
      case (Inr st')
      with same [of st'] Inl show ?thesis by simp
    next
      case Inl': (Inl e')
      from for_each_delete_handle_Inl [OF Inl] for_each_delete_handle_Inl [OF Inl'] Inl Inl'
      show ?thesis by simp
    qed
  qed
qed

subsection \<open>Destruction in either order\<close>

lemma detach_all_twice: "detach_all a (detach_all b m) = detach_all (b @ a) m"
  by (rule ext) (auto simp: detach_all_def option.map_comp o_def intro!: option.map_cong filter_cong)

lemma release_all_twice: "release_all a (release_all b m) = release_all (b @ a) m"
  by (rule ext) (auto simp: release_all_def option.map_comp o_def intro!: option.map_cong filter_cong)

lemma free_all_twice: "free_all a (free_all b m) = free_all (b @ a) m"
  by (rule ext) (simp add: free_all_def)

lemma detach_all_cong: "set a = set b \<Longrightarrow> detach_all a m = detach_all b m"
  by (simp add: detach_all_def)

lemma release_all_cong: "set a = set b \<Longrightarrow> release_all a m = release_all b m"
  by (simp add: release_all_def)

lemma free_all_cong: "set a = set b \<Longrightarrow> free_all a m = free_all b m"
  by (simp add: free_all_def)

lemma detach_all_drop: "detach_all hs (m(s := None)) = (detach_all hs m)(s := None)"
  by (rule ext) (simp add: detach_all_def)

lemma release_all_drop: "release_all hs (m(ow := None)) = (release_all hs m)(ow := None)"
  by (rule ext) (simp add: release_all_def)

lemma well_formed_destroy_owner:
  assumes "well_formed st" "owners st ow = Some os" "destroy_owner st ow = Inr st'"
  shows "well_formed st'"
proof -
  have ok: "subjects_ok st" "owners_ok st"
    using assms(1) by (simp_all add: well_formed_def consistent_def)
  from destroy_owner_released(1) [OF ok assms(2,3)] obtain p where
    d: "st' = (released os st)\<lparr>owners := (owners (released os st))(ow := None), past_end := p\<rparr>"
    by blast
  have "owners (released os st) ow = Some []"
    using assms(2) by (simp add: released_def release_all_def)
  with well_formed_released [OF assms(1)]
  have "well_formed ((released os st)\<lparr>owners := (owners (released os st))(ow := None)\<rparr>)"
    by (rule well_formed_drop_owner)
  then show "well_formed st'"
    unfolding d by simp
qed

lemma well_formed_destroy_subject:
  assumes "well_formed st" "subjects st s = Some sub" "destroy_subject st s = Inr st'"
  shows "well_formed st'"
proof -
  have ok: "subjects_ok st" "owners_ok st"
    using assms(1) by (simp_all add: well_formed_def consistent_def)
  note d = destroy_subject_released [OF ok assms(2,3)]
  have "subjects (released (m_observers sub) st) s = Some (sub\<lparr>m_observers := []\<rparr>)"
    using assms(2) by (simp add: released_def detach_all_def)
  with well_formed_released [OF assms(1)] show "well_formed st'"
    unfolding d by (rule well_formed_drop_subject) simp
qed

lemma registries_ok_cross_world: "registries_ok cross_world"
  unfolding registries_ok_def
proof (intro conjI)
  show "subjects_ok cross_world"
    by (auto simp: subjects_ok_def cross_world_def split: if_splits)
  show "owners_ok cross_world"
    by (auto simp: owners_ok_def cross_world_def split: if_splits)
  show "handles_owned cross_world"
    by (auto simp: handles_owned_def cross_world_def split: if_splits)
qed

lemma anchored_cross_world: "anchored cross_world 0 [1, 2]"
  by (simp add: anchored_def cross_world_def)

lemma reach_unblocked_cross_world: "reach_unblocked cross_world"
proof -
  let ?s0 = "\<lparr>sizeof_A = 1, m_observers = []\<rparr>"
  let ?h1 = "\<lparr>m_owner = 0, m_subject = 0, m_function = Plain 1 7\<rparr>"
  let ?h2 = "\<lparr>m_owner = 0, m_subject = 1, m_function = Plain 1 8\<rparr>"
  let ?w1 = "\<lparr>subjects = [0 \<mapsto> ?s0], owners = Map.empty,
      heap = Map.empty, blockers = Map.empty, past_end = (\<lambda>s. []), trace = [], deleted = {#}\<rparr>"
  let ?w2 = "\<lparr>subjects = [0 \<mapsto> ?s0, 1 \<mapsto> ?s0], owners = Map.empty,
      heap = Map.empty, blockers = Map.empty, past_end = (\<lambda>s. []), trace = [], deleted = {#}\<rparr>"
  let ?w3 = "\<lparr>subjects = [0 \<mapsto> ?s0, 1 \<mapsto> ?s0], owners = [0 \<mapsto> []],
      heap = Map.empty, blockers = Map.empty, past_end = (\<lambda>s. []), trace = [], deleted = {#}\<rparr>"
  let ?w4 = "\<lparr>subjects = [0 \<mapsto> ?s0, 1 \<mapsto> ?s0], owners = [0 \<mapsto> [], 1 \<mapsto> []],
      heap = Map.empty, blockers = Map.empty, past_end = (\<lambda>s. []), trace = [], deleted = {#}\<rparr>"
  let ?w5 = "\<lparr>subjects = [0 \<mapsto> \<lparr>sizeof_A = 1, m_observers = [1]\<rparr>, 1 \<mapsto> ?s0],
      owners = [0 \<mapsto> [1], 1 \<mapsto> []],
      heap = [1 \<mapsto> ?h1],
      blockers = Map.empty, past_end = (\<lambda>s. []), trace = [], deleted = {#}\<rparr>"
  let ?w6 = "\<lparr>subjects = [0 \<mapsto> \<lparr>sizeof_A = 1, m_observers = [1]\<rparr>,
                   1 \<mapsto> \<lparr>sizeof_A = 1, m_observers = [2]\<rparr>],
      owners = [0 \<mapsto> [1, 2], 1 \<mapsto> []],
      heap = [1 \<mapsto> ?h1, 2 \<mapsto> ?h2],
      blockers = Map.empty, past_end = (\<lambda>s. []), trace = [], deleted = {#}\<rparr>"
  have "new_subject empty_world 0 1 = Inr ?w1"
    by (simp add: new_subject_def empty_world_def)
  with reach_unblocked.start have r1: "reach_unblocked ?w1" by (rule reach_unblocked.subject)
  have "new_subject ?w1 1 1 = Inr ?w2"
    by (simp add: new_subject_def)
  with r1 have r2: "reach_unblocked ?w2" by (rule reach_unblocked.subject)
  have "new_owner ?w2 0 = Inr ?w3"
    by (simp add: new_owner_def)
  with r2 have r3: "reach_unblocked ?w3" by (rule reach_unblocked.owner)
  have "new_owner ?w3 1 = Inr ?w4"
    by (simp add: new_owner_def)
  with r3 have r4: "reach_unblocked ?w4" by (rule reach_unblocked.owner)
  have "connect_function ?w4 0 0 (Plain 1 7) 1 = Inr (1, ?w5)"
    by (simp add: connect_function_Inr fun_upd_twist)
  with r4 have r5: "reach_unblocked ?w5" by (rule reach_unblocked.connect)
  have "connect_function ?w5 0 1 (Plain 1 8) 2 = Inr (2, ?w6)"
    by (simp add: connect_function_Inr fun_upd_twist)
  with r5 have r6: "reach_unblocked ?w6" by (rule reach_unblocked.connect)
  have "connect_function ?w6 1 0 (Plain 0 9) 3 = Inr (3, cross_world)"
    by (simp add: connect_function_Inr cross_world_def fun_upd_twist)
  with r6 show ?thesis by (rule reach_unblocked.connect)
qed

lemma reach_lost_world: "reach g lost_world"
proof -
  let ?h1 = "\<lparr>m_owner = 0, m_subject = 0, m_function = Plain 1 7\<rparr>"
  let ?h2 = "\<lparr>m_owner = 0, m_subject = 0, m_function = Plain 1 8\<rparr>"
  let ?h3 = "\<lparr>m_owner = 0, m_subject = 0, m_function = Plain 1 9\<rparr>"
  let ?w1 = "\<lparr>subjects = [0 \<mapsto> \<lparr>sizeof_A = 1, m_observers = []\<rparr>], owners = Map.empty,
      heap = Map.empty, blockers = Map.empty, past_end = (\<lambda>s. []), trace = [], deleted = {#}\<rparr>"
  let ?w2 = "\<lparr>subjects = [0 \<mapsto> \<lparr>sizeof_A = 1, m_observers = []\<rparr>], owners = [0 \<mapsto> []],
      heap = Map.empty, blockers = Map.empty, past_end = (\<lambda>s. []), trace = [], deleted = {#}\<rparr>"
  let ?w3 = "\<lparr>subjects = [0 \<mapsto> \<lparr>sizeof_A = 1, m_observers = [1]\<rparr>], owners = [0 \<mapsto> [1]],
      heap = [1 \<mapsto> ?h1],
      blockers = Map.empty, past_end = (\<lambda>s. []), trace = [], deleted = {#}\<rparr>"
  let ?w4 = "\<lparr>subjects = [0 \<mapsto> \<lparr>sizeof_A = 1, m_observers = [1, 2]\<rparr>], owners = [0 \<mapsto> [1, 2]],
      heap = [1 \<mapsto> ?h1, 2 \<mapsto> ?h2],
      blockers = Map.empty, past_end = (\<lambda>s. []), trace = [], deleted = {#}\<rparr>"
  let ?w5 = "\<lparr>subjects = [0 \<mapsto> \<lparr>sizeof_A = 1, m_observers = []\<rparr>], owners = [0 \<mapsto> [1, 2]],
      heap = [1 \<mapsto> ?h1, 2 \<mapsto> ?h2],
      blockers = [0 \<mapsto> \<lparr>blocked_subject = 0, blocked_observers = [1, 2], blocked_past_end = []\<rparr>],
      past_end = (\<lambda>s. []), trace = [], deleted = {#}\<rparr>"
  let ?w6 = "\<lparr>subjects = [0 \<mapsto> \<lparr>sizeof_A = 1, m_observers = [3]\<rparr>], owners = [0 \<mapsto> [1, 2, 3]],
      heap = [1 \<mapsto> ?h1, 2 \<mapsto> ?h2, 3 \<mapsto> ?h3],
      blockers = [0 \<mapsto> \<lparr>blocked_subject = 0, blocked_observers = [1, 2], blocked_past_end = []\<rparr>],
      past_end = (\<lambda>s. []), trace = [], deleted = {#}\<rparr>"
  have "new_subject empty_world 0 1 = Inr ?w1"
    by (simp add: new_subject_def empty_world_def)
  with reach.start [of g] have r1: "reach g ?w1" by (rule reach.subject)
  have "new_owner ?w1 0 = Inr ?w2"
    by (simp add: new_owner_def)
  with r1 have r2: "reach g ?w2" by (rule reach.owner)
  have "connect_function ?w2 0 0 (Plain 1 7) 1 = Inr (1, ?w3)"
    by (simp add: connect_function_Inr)
  with r2 have r3: "reach g ?w3" by (rule reach.connect)
  have "connect_function ?w3 0 0 (Plain 1 8) 2 = Inr (2, ?w4)"
    by (simp add: connect_function_Inr fun_upd_twist)
  with r3 have r4: "reach g ?w4" by (rule reach.connect)
  have "blocker_construct ?w4 0 0 = Inr ?w5"
    by (simp add: blocker_construct_def)
  with r4 have r5: "reach g ?w5" by (rule reach.block)
  have "connect_function ?w5 0 0 (Plain 1 9) 3 = Inr (3, ?w6)"
    by (simp add: connect_function_Inr fun_upd_twist)
  with r5 have r6: "reach g ?w6" by (rule reach.connect)
  have "blocker_destroy ?w6 0 = Inr lost_world"
    by (simp add: blocker_destroy_def lost_world_def)
  with r6 show ?thesis by (rule reach.unblock)
qed

lemma reach_stale_world: "reach False stale_world"
proof -
  let ?h1 = "\<lparr>m_owner = 0, m_subject = 0, m_function = Plain 1 7\<rparr>"
  let ?w1 = "\<lparr>subjects = [0 \<mapsto> \<lparr>sizeof_A = 1, m_observers = []\<rparr>], owners = Map.empty,
      heap = Map.empty, blockers = Map.empty, past_end = (\<lambda>s. []), trace = [], deleted = {#}\<rparr>"
  let ?w2 = "\<lparr>subjects = [0 \<mapsto> \<lparr>sizeof_A = 1, m_observers = []\<rparr>], owners = [0 \<mapsto> []],
      heap = Map.empty, blockers = Map.empty, past_end = (\<lambda>s. []), trace = [], deleted = {#}\<rparr>"
  let ?w3 = "\<lparr>subjects = [0 \<mapsto> \<lparr>sizeof_A = 1, m_observers = [1]\<rparr>], owners = [0 \<mapsto> [1]],
      heap = [1 \<mapsto> ?h1],
      blockers = Map.empty, past_end = (\<lambda>s. []), trace = [], deleted = {#}\<rparr>"
  let ?w4 = "\<lparr>subjects = [0 \<mapsto> \<lparr>sizeof_A = 1, m_observers = []\<rparr>], owners = [0 \<mapsto> [1]],
      heap = [1 \<mapsto> ?h1],
      blockers = [0 \<mapsto> \<lparr>blocked_subject = 0, blocked_observers = [1], blocked_past_end = []\<rparr>],
      past_end = (\<lambda>s. []), trace = [], deleted = {#}\<rparr>"
  let ?w5 = "\<lparr>subjects = [0 \<mapsto> \<lparr>sizeof_A = 1, m_observers = []\<rparr>], owners = [0 \<mapsto> []],
      heap = Map.empty,
      blockers = [0 \<mapsto> \<lparr>blocked_subject = 0, blocked_observers = [1], blocked_past_end = []\<rparr>],
      past_end = (\<lambda>s. []), trace = [], deleted = {#1#}\<rparr>"
  let ?w6 = "\<lparr>subjects = [0 \<mapsto> \<lparr>sizeof_A = 1, m_observers = [1]\<rparr>], owners = [0 \<mapsto> []],
      heap = Map.empty,
      blockers = Map.empty, past_end = (\<lambda>s. []), trace = [], deleted = {#1#}\<rparr>"
  have "new_subject empty_world 0 1 = Inr ?w1"
    by (simp add: new_subject_def empty_world_def)
  with reach.start [of False] have r1: "reach False ?w1" by (rule reach.subject)
  have "new_owner ?w1 0 = Inr ?w2"
    by (simp add: new_owner_def)
  with r1 have r2: "reach False ?w2" by (rule reach.owner)
  have "connect_function ?w2 0 0 (Plain 1 7) 1 = Inr (1, ?w3)"
    by (simp add: connect_function_Inr)
  with r2 have r3: "reach False ?w3" by (rule reach.connect)
  have "blocker_construct ?w3 0 0 = Inr ?w4"
    by (simp add: blocker_construct_def)
  with r3 have r4: "reach False ?w4" by (rule reach.block)
  have d: "disconnect ?w4 0 1 = Inr ?w5"
    by (simp add: disconnect_def remove_from_subject_def owner_remove_observer_def
        delete_handle_def remove_observer_def left_past_end_def)
  have r5: "reach False ?w5"
    by (rule reach.disconnect [OF r4 _ d]) simp
  have "blocker_destroy ?w5 0 = Inr ?w6"
    by (simp add: blocker_destroy_def)
  with r5 have r6: "reach False ?w6" by (rule reach.unblock)
  have "connect_function ?w6 0 0 (Plain 1 8) 2 = Inr (2, stale_world)"
    by (simp add: connect_function_Inr stale_world_def)
  with r6 show ?thesis by (rule reach.connect)
qed

text \<open>
  Claim C1, as amended. Take a world whose sequences and sets are in order (each lists
  a handle once, and only allocated handles bound to it, and every allocated handle is
  in the set of its live owner), a live owner \<open>ow\<close> and a live subject \<open>s\<close>, whatever
  connects them and whatever else they are connected to. When every handle the owner
  holds is bound to a live subject and those bound to \<open>s\<close> are in the dispatch sequence
  of \<open>s\<close>, the destructor of \<open>ow\<close> followed by that of \<open>s\<close> returns, and so does the
  destructor of \<open>s\<close> followed by that of \<open>ow\<close>. After each destructor the sequences and
  the sets are in order again, so none lists a handle that is gone: the subject that
  survives the owner lists its handles but the owner's, the owner that survives the
  subject holds its handles but the subject's. Every handle of the owner and every
  handle in the subject's sequence is deleted exactly once, by the first of the two
  destructors that reaches it, and the two orders end with the same subjects, owners and
  handles. The claim as stated, for any owner and subject, fails: a handle connected
  while a blocker was on the subject is out of the subject's sequence once the blocker
  is destroyed, the destructor of the subject leaves it with the owner, and the
  destructor of the owner then calls \<^verbatim>\<open>remove_from_subject\<close> on it, through the
  reference to the subject that is gone; in the other order both destructors return.
  And where a sequence is not in order, because a handle was disconnected while a
  blocker held it, the destructor of the subject calls \<^verbatim>\<open>remove_from_owner\<close> through the
  handle that is gone, in either order.
\<close>

theorem destruction_order_independence:
  assumes ok: "registries_ok st" and ow: "owners st ow = Some os"
    and s: "subjects st s = Some sub" and an: "anchored st s os"
  shows "\<exists>st1 st2 st1' st2'.
     destroy_owner st ow = Inr st1 \<and> destroy_subject st1 s = Inr st2 \<and>
     destroy_subject st s = Inr st1' \<and> destroy_owner st1' ow = Inr st2' \<and>
     registries_ok st1 \<and> registries_ok st2 \<and> registries_ok st1' \<and> registries_ok st2' \<and>
     subjects st1 s = Some (sub\<lparr>m_observers := filter (\<lambda>h. h \<notin> set os) (m_observers sub)\<rparr>) \<and>
     owners st1' ow = Some (filter (\<lambda>h. h \<notin> set (m_observers sub)) os) \<and>
     heap st1 = free_all os (heap st) \<and>
     heap st1' = free_all (m_observers sub) (heap st) \<and>
     deleted st1 = deleted st + mset_set (set os) \<and>
     deleted st1' = deleted st + mset_set (set (m_observers sub)) \<and>
     deleted st2 = deleted st + mset_set (set os \<union> set (m_observers sub)) \<and>
     deleted st2' = deleted st + mset_set (set os \<union> set (m_observers sub)) \<and>
     heap st2 = free_all (os @ m_observers sub) (heap st) \<and>
     subjects st2 = (detach_all (os @ m_observers sub) (subjects st))(s := None) \<and>
     owners st2 = (release_all (os @ m_observers sub) (owners st))(ow := None) \<and>
     heap st2' = heap st2 \<and> subjects st2' = subjects st2 \<and> owners st2' = owners st2"
proof -
  let ?v = "m_observers sub"
  let ?v1 = "filter (\<lambda>h. h \<notin> set os) ?v"
  let ?os1 = "filter (\<lambda>h. h \<notin> set ?v) os"
  have sok: "subjects_ok st" and ook: "owners_ok st" and hok: "handles_owned st"
    using ok by (simp_all add: registries_ok_def)
  have dv: "distinct ?v" using sok s by (rule subjects_ok_distinct)
  have dos: "distinct os" using ook ow by (rule owners_ok_distinct)
  \<comment> \<open>the owner first\<close>
  have live: "\<forall>h \<in> set os. \<exists>ob. heap st h = Some ob \<and> subjects st (m_subject ob) \<noteq> None"
    using an unfolding anchored_def by fastforce
  from destroy_owner_returns [OF sok ook ow live] obtain st1 where
    d1: "destroy_owner st ow = Inr st1"
    by blast
  from destroy_owner_released(1) [OF sok ook ow d1] obtain p1 where
    e1: "st1 = (released os st)\<lparr>owners := (owners (released os st))(ow := None),
                                past_end := p1\<rparr>"
    by blast
  have "owners (released os st) ow = Some []"
    using ow by (simp add: released_def release_all_def)
  with registries_ok_released [OF ok]
  have "registries_ok ((released os st)\<lparr>owners := (owners (released os st))(ow := None)\<rparr>)"
    by (rule registries_ok_drop_owner)
  then have r1: "registries_ok st1"
    unfolding e1 by simp
  have s1: "subjects st1 s = Some (sub\<lparr>m_observers := ?v1\<rparr>)"
    using s by (simp add: e1 released_def detach_all_def)
  have ok1: "subjects_ok st1" "owners_ok st1" "handles_owned st1"
    using r1 by (simp_all add: registries_ok_def)
  from destroy_subject_returns [OF ok1(1,3) s1] obtain st2 where
    d2: "destroy_subject st1 s = Inr st2"
    by blast
  have e2: "st2 = (released ?v1 st1)\<lparr>subjects := (subjects (released ?v1 st1))(s := None)\<rparr>"
    using destroy_subject_released [OF ok1(1,2) s1 d2] by simp
  have r2: "registries_ok st2"
    unfolding e2 using registries_ok_released [OF r1] by (rule registries_ok_drop_subject)
  \<comment> \<open>the subject first\<close>
  from destroy_subject_returns [OF sok hok s] obtain st1' where
    d1': "destroy_subject st s = Inr st1'"
    by blast
  note e1' = destroy_subject_released [OF sok ook s d1']
  have r1': "registries_ok st1'"
    unfolding e1' using registries_ok_released [OF ok] by (rule registries_ok_drop_subject)
  have ok1': "subjects_ok st1'" "owners_ok st1'" "handles_owned st1'"
    using r1' by (simp_all add: registries_ok_def)
  have o1': "owners st1' ow = Some ?os1"
    using ow by (simp add: e1' released_def release_all_def)
  have live': "\<forall>h \<in> set ?os1. \<exists>ob. heap st1' h = Some ob \<and> subjects st1' (m_subject ob) \<noteq> None"
  proof
    fix h
    assume "h \<in> set ?os1"
    then have h: "h \<in> set os" "h \<notin> set ?v" by simp_all
    from an h(1) obtain ob sub' where ob: "heap st h = Some ob"
      "subjects st (m_subject ob) = Some sub'"
      "m_subject ob = s \<longrightarrow> h \<in> set (m_observers sub')"
      unfolding anchored_def by blast
    from ob(2,3) s h(2) have ne: "m_subject ob \<noteq> s" by auto
    have "heap st1' h = Some ob"
      using ob(1) h(2) by (simp add: e1' released_def free_all_def)
    moreover have "subjects st1' (m_subject ob) \<noteq> None"
      using ob(2) ne by (simp add: e1' released_def detach_all_def)
    ultimately show "\<exists>ob. heap st1' h = Some ob \<and> subjects st1' (m_subject ob) \<noteq> None"
      by blast
  qed
  from destroy_owner_returns [OF ok1'(1,2) o1' live'] obtain st2' where
    d2': "destroy_owner st1' ow = Inr st2'"
    by blast
  from destroy_owner_released(1) [OF ok1'(1,2) o1' d2'] obtain p2 where
    e2': "st2' = (released ?os1 st1')\<lparr>owners := (owners (released ?os1 st1'))(ow := None),
                                    past_end := p2\<rparr>"
    by blast
  have "owners (released ?os1 st1') ow = Some []"
    using o1' by (simp add: released_def release_all_def)
  with registries_ok_released [OF r1']
  have "registries_ok ((released ?os1 st1')\<lparr>owners := (owners (released ?os1 st1'))(ow := None)\<rparr>)"
    by (rule registries_ok_drop_owner)
  then have r2': "registries_ok st2'"
    unfolding e2' by simp
  \<comment> \<open>what is left\<close>
  have set1: "set (os @ ?v1) = set (os @ ?v)" and set2: "set (?v @ ?os1) = set (os @ ?v)"
    by auto
  have dist: "distinct (os @ ?v1)" "distinct (?v @ ?os1)"
    using dv dos by auto
  have m1: "mset os + mset ?v1 = mset_set (set os \<union> set ?v)"
    using mset_set_set [OF dist(1)] set1 by simp
  have m2: "mset ?v + mset ?os1 = mset_set (set os \<union> set ?v)"
    using mset_set_set [OF dist(2)] set2 by simp
  have h1: "heap st1 = free_all os (heap st)" and h1': "heap st1' = free_all ?v (heap st)"
    by (simp_all add: e1 e1' released_def)
  have del1: "deleted st1 = deleted st + mset_set (set os)"
    using mset_set_set [OF dos] by (simp add: e1 released_def)
  have del1': "deleted st1' = deleted st + mset_set (set ?v)"
    using mset_set_set [OF dv] by (simp add: e1' released_def)
  have del2: "deleted st2 = deleted st + mset_set (set os \<union> set ?v)"
    using m1 by (simp add: e2 e1 released_def add.assoc)
  have del2': "deleted st2' = deleted st + mset_set (set os \<union> set ?v)"
    using m2 by (simp add: e2' e1' released_def add.assoc)
  have h2: "heap st2 = free_all (os @ ?v) (heap st)"
    using free_all_cong [OF set1] by (simp add: e2 e1 released_def free_all_twice)
  have h2': "heap st2' = free_all (os @ ?v) (heap st)"
    using free_all_cong [OF set2] by (simp add: e2' e1' released_def free_all_twice)
  have su2: "subjects st2 = (detach_all (os @ ?v) (subjects st))(s := None)"
    using detach_all_cong [OF set1] by (simp add: e2 e1 released_def detach_all_twice)
  have su2': "subjects st2' = (detach_all (os @ ?v) (subjects st))(s := None)"
    using detach_all_cong [OF set2]
    by (simp add: e2' e1' released_def detach_all_twice detach_all_drop)
  have ow2: "owners st2 = (release_all (os @ ?v) (owners st))(ow := None)"
    using release_all_cong [OF set1]
    by (simp add: e2 e1 released_def release_all_twice release_all_drop)
  have ow2': "owners st2' = (release_all (os @ ?v) (owners st))(ow := None)"
    using release_all_cong [OF set2] by (simp add: e2' e1' released_def release_all_twice)
  show ?thesis
    using d1 d2 d1' d2' r1 r2 r1' r2' s1 o1' h1 h1' del1 del1' del2 del2' h2 h2' su2 su2'
      ow2 ow2'
    by (intro exI [of _ st1] exI [of _ st2] exI [of _ st1'] exI [of _ st2']) simp
qed

theorem destruction_order_independence_witness:
  "reach_unblocked cross_world \<and>
   registries_ok cross_world \<and> owners cross_world 0 = Some [1, 2] \<and>
   subjects cross_world 0 = Some \<lparr>sizeof_A = 1, m_observers = [1, 3]\<rparr> \<and>
   anchored cross_world 0 [1, 2] \<and>
   (\<exists>st1 st2 st1' st2'.
      destroy_owner cross_world 0 = Inr st1 \<and> destroy_subject st1 0 = Inr st2 \<and>
      destroy_subject cross_world 0 = Inr st1' \<and> destroy_owner st1' 0 = Inr st2' \<and>
      registries_ok st1 \<and> registries_ok st2 \<and> registries_ok st1' \<and> registries_ok st2' \<and>
      subjects st1 0 = Some \<lparr>sizeof_A = 1, m_observers = [3]\<rparr> \<and>
      owners st1' 0 = Some [2] \<and>
      deleted st2 = {#1, 2, 3#} \<and> deleted st2' = {#1, 2, 3#} \<and>
      heap st2' = heap st2 \<and> subjects st2' = subjects st2 \<and> owners st2' = owners st2)"
proof -
  have o: "owners cross_world 0 = Some [1, 2]"
    and s: "subjects cross_world 0 = Some \<lparr>sizeof_A = 1, m_observers = [1, 3]\<rparr>"
    and d: "deleted cross_world = {#}"
    by (simp_all add: cross_world_def)
  have m: "mset_set (set [1, 2] \<union> set [1, 3]) = {#1, 2, 3::nat#}"
    using mset_set_set [of "[1, 2, 3::nat]"] by (simp add: insert_commute)
  from destruction_order_independence [OF registries_ok_cross_world o s anchored_cross_world] d m
  obtain st1 st2 st1' st2' where r:
      "destroy_owner cross_world 0 = Inr st1" "destroy_subject st1 0 = Inr st2"
      "destroy_subject cross_world 0 = Inr st1'" "destroy_owner st1' 0 = Inr st2'"
      "registries_ok st1" "registries_ok st2" "registries_ok st1'" "registries_ok st2'"
      "subjects st1 0 = Some \<lparr>sizeof_A = 1, m_observers = [3]\<rparr>"
      "owners st1' 0 = Some [2]"
      "deleted st2 = {#1, 2, 3#}" "deleted st2' = {#1, 2, 3#}"
      "heap st2' = heap st2" "subjects st2' = subjects st2" "owners st2' = owners st2"
    by (elim exE conjE) simp
  have "\<exists>st1 st2 st1' st2'.
      destroy_owner cross_world 0 = Inr st1 \<and> destroy_subject st1 0 = Inr st2 \<and>
      destroy_subject cross_world 0 = Inr st1' \<and> destroy_owner st1' 0 = Inr st2' \<and>
      registries_ok st1 \<and> registries_ok st2 \<and> registries_ok st1' \<and> registries_ok st2' \<and>
      subjects st1 0 = Some \<lparr>sizeof_A = 1, m_observers = [3]\<rparr> \<and>
      owners st1' 0 = Some [2] \<and>
      deleted st2 = {#1, 2, 3#} \<and> deleted st2' = {#1, 2, 3#} \<and>
      heap st2' = heap st2 \<and> subjects st2' = subjects st2 \<and> owners st2' = owners st2"
    using r by blast
  with reach_unblocked_cross_world registries_ok_cross_world o s anchored_cross_world
  show ?thesis by simp
qed

theorem lost_handle_destruction_counterexample:
  "reach True lost_world \<and> registries_ok lost_world \<and>
   owners lost_world 0 = Some [1, 2, 3] \<and>
   subjects lost_world 0 = Some \<lparr>sizeof_A = 1, m_observers = [1, 2]\<rparr> \<and>
   heap lost_world 3 = Some \<lparr>m_owner = 0, m_subject = 0, m_function = Plain 1 9\<rparr> \<and>
   \<not> anchored lost_world 0 [1, 2, 3] \<and>
   destroy_owner lost_world 0 = Inr lost_after_owner \<and>
   destroy_subject lost_after_owner 0 = Inr lost_after_both \<and>
   destroy_subject lost_world 0 = Inr lost_after_subject \<and>
   destroy_owner lost_after_subject 0 = Inl UseAfterFree \<and>
   reach False stale_world \<and> anchored stale_world 0 [2] \<and> \<not> registries_ok stale_world \<and>
   owners stale_world 0 = Some [2] \<and>
   subjects stale_world 0 = Some \<lparr>sizeof_A = 1, m_observers = [1, 2]\<rparr> \<and>
   heap stale_world 1 = None \<and>
   destroy_subject stale_world 0 = Inl UseAfterFree \<and>
   destroy_owner stale_world 0 = Inr stale_after_owner \<and>
   destroy_subject stale_after_owner 0 = Inl UseAfterFree"
proof -
  have "registries_ok lost_world"
    unfolding registries_ok_def
  proof (intro conjI)
    show "subjects_ok lost_world"
      by (auto simp: subjects_ok_def lost_world_def split: if_splits)
    show "owners_ok lost_world"
      by (auto simp: owners_ok_def lost_world_def split: if_splits)
    show "handles_owned lost_world"
      by (auto simp: handles_owned_def lost_world_def split: if_splits)
  qed
  moreover have "destroy_owner lost_world 0 = Inr lost_after_owner"
    by (simp add: destroy_owner_def remove_from_subject_def delete_handle_def remove_observer_def
        left_past_end_def erase_def lost_world_def lost_after_owner_def)
  moreover have "destroy_subject lost_after_owner 0 = Inr lost_after_both"
    by (simp add: destroy_subject_def lost_after_owner_def lost_after_both_def)
  moreover have "destroy_subject lost_world 0 = Inr lost_after_subject"
    by (simp add: destroy_subject_def remove_from_owner_def owner_remove_observer_def
        delete_handle_def lost_world_def lost_after_subject_def)
  moreover have "destroy_owner lost_after_subject 0 = Inl UseAfterFree"
    by (simp add: destroy_owner_def remove_from_subject_def lost_after_subject_def)
  moreover have "owners lost_world 0 = Some [1, 2, 3]"
    "subjects lost_world 0 = Some \<lparr>sizeof_A = 1, m_observers = [1, 2]\<rparr>"
    "heap lost_world 3 = Some \<lparr>m_owner = 0, m_subject = 0, m_function = Plain 1 9\<rparr>"
    by (simp_all add: lost_world_def)
  moreover have "\<not> anchored lost_world 0 [1, 2, 3]"
    by (simp add: anchored_def lost_world_def)
  moreover have "\<not> registries_ok stale_world"
  proof
    assume "registries_ok stale_world"
    then have "subjects_ok stale_world" by (simp add: registries_ok_def)
    from subjects_ok_member [OF this, of 0 "\<lparr>sizeof_A = 1, m_observers = [1, 2]\<rparr>" 1]
    show False by (simp add: stale_world_def)
  qed
  moreover have "anchored stale_world 0 [2]"
    "owners stale_world 0 = Some [2]"
    "subjects stale_world 0 = Some \<lparr>sizeof_A = 1, m_observers = [1, 2]\<rparr>"
    "heap stale_world 1 = None"
    by (simp_all add: anchored_def stale_world_def)
  moreover have "destroy_subject stale_world 0 = Inl UseAfterFree"
    by (simp add: destroy_subject_def remove_from_owner_def stale_world_def)
  moreover have "destroy_owner stale_world 0 = Inr stale_after_owner"
    by (simp add: destroy_owner_def remove_from_subject_def delete_handle_def remove_observer_def
        left_past_end_def erase_def stale_world_def stale_after_owner_def)
  moreover have "destroy_subject stale_after_owner 0 = Inl UseAfterFree"
    by (simp add: destroy_subject_def remove_from_owner_def stale_after_owner_def)
  ultimately show ?thesis
    using reach_lost_world [of True] reach_stale_world by simp
qed

subsection \<open>Construction, connection and blockers keep the registries consistent\<close>

lemma consistent_trace [simp]: "consistent (st\<lparr>trace := t\<rparr>) = consistent st"
  by (simp add: consistent_def subjects_ok_def owners_ok_def handles_owned_def blockers_ok_def)

lemma held_trace [simp]: "held (st\<lparr>trace := t\<rparr>) h = held st h"
  by (simp add: held_def)

lemma safe_callbacks_trace [simp]: "safe_callbacks (st\<lparr>trace := t\<rparr>) = safe_callbacks st"
  by (simp add: safe_callbacks_def)

lemma consistent_empty_world: "consistent empty_world"
  by (simp add: consistent_def subjects_ok_def owners_ok_def handles_owned_def blockers_ok_def
      empty_world_def)

lemma consistent_new_subject:
  assumes "consistent st" "new_subject st s n = Inr st'"
  shows "consistent st'"
proof -
  from assms(2) have n: "subjects st s = None"
    and st': "st' = st\<lparr>subjects := (subjects st)(s \<mapsto> \<lparr>sizeof_A = n, m_observers = []\<rparr>),
                   past_end := (past_end st)(s := [])\<rparr>"
    by (auto simp: new_subject_def split: option.splits)
  have "subjects_ok st'"
    using assms(1) by (auto simp: consistent_def subjects_ok_def st')
  moreover have "owners_ok st'" "handles_owned st'" "blockers_ok st'"
    using assms(1) by (simp_all add: consistent_def owners_ok_def handles_owned_def blockers_ok_def st')
  ultimately show ?thesis by (simp add: consistent_def)
qed

lemma consistent_new_owner:
  assumes "consistent st" "new_owner st ow = Inr st'"
  shows "consistent st'"
proof -
  from assms(2) have n: "owners st ow = None"
    and st': "st' = st\<lparr>owners := (owners st)(ow \<mapsto> [])\<rparr>"
    by (auto simp: new_owner_def split: option.splits)
  have "owners_ok st'"
    using assms(1) by (auto simp: consistent_def owners_ok_def st')
  moreover have "handles_owned st'"
    unfolding handles_owned_def
  proof (intro allI impI)
    fix h ob
    assume "heap st' h = Some ob"
    then have "heap st h = Some ob" by (simp add: st')
    from handles_owned_owner [OF _ this] assms(1) obtain os where
      os: "owners st (m_owner ob) = Some os" "h \<in> set os"
      by (auto simp: consistent_def)
    with n have "m_owner ob \<noteq> ow" by auto
    with os show "\<exists>os. owners st' (m_owner ob) = Some os \<and> h \<in> set os"
      by (simp add: st')
  qed
  moreover have "subjects_ok st'" "blockers_ok st'"
    using assms(1) by (simp_all add: consistent_def subjects_ok_def blockers_ok_def st')
  ultimately show ?thesis by (simp add: consistent_def)
qed

lemma consistent_connect_function:
  assumes c: "consistent st" and r: "connect_function st ow s F a = Inr (h, st')"
  shows "consistent st'"
proof -
  let ?ob = "\<lparr>m_owner = ow, m_subject = s, m_function = F\<rparr>"
  from r obtain sub os where os: "owners st ow = Some os" and sub: "subjects st s = Some sub"
    and a: "heap st a = None" "a \<notin> set os"
    and st': "st' = st\<lparr>heap := (heap st)(a \<mapsto> ?ob),
                   subjects := (subjects st)(s \<mapsto> sub\<lparr>m_observers := m_observers sub @ [a]\<rparr>),
                   owners := (owners st)(ow \<mapsto> insort a os),
                   past_end := (past_end st)(s := tl (past_end st s))\<rparr>"
    by (auto simp: connect_function_Inr)
  have ok: "subjects_ok st" "owners_ok st" "handles_owned st" "blockers_ok st"
    using c by (simp_all add: consistent_def)
  have "subjects_ok st'"
    unfolding subjects_ok_def
  proof (intro allI impI)
    fix x sub'
    assume x: "subjects st' x = Some sub'"
    show "distinct (m_observers sub') \<and>
        (\<forall>h \<in> set (m_observers sub'). \<exists>ob. heap st' h = Some ob \<and> m_subject ob = x)"
    proof (cases "x = s")
      case True
      with x have v: "m_observers sub' = m_observers sub @ [a]" by (auto simp: st')
      have "a \<notin> set (m_observers sub)"
        using subjects_ok_member [OF ok(1) sub, of a] a(1) by auto
      then show ?thesis
        using v True subjects_ok_distinct [OF ok(1) sub] subjects_ok_member [OF ok(1) sub]
        by (auto simp: st')
    next
      case False
      with x have x': "subjects st x = Some sub'" by (simp add: st')
      have "a \<notin> set (m_observers sub')"
        using subjects_ok_member [OF ok(1) x', of a] a(1) by auto
      then show ?thesis
        using subjects_ok_distinct [OF ok(1) x'] subjects_ok_member [OF ok(1) x']
        by (auto simp: st')
    qed
  qed
  moreover have "owners_ok st'"
    unfolding owners_ok_def
  proof (intro allI impI)
    fix x os'
    assume x: "owners st' x = Some os'"
    show "distinct os' \<and> (\<forall>h \<in> set os'. \<exists>ob. heap st' h = Some ob \<and> m_owner ob = x)"
    proof (cases "x = ow")
      case True
      with x have v: "os' = insort a os" by (auto simp: st')
      show ?thesis
        using v True a(2) owners_ok_distinct [OF ok(2) os] owners_ok_member [OF ok(2) os]
        by (auto simp: st' distinct_insort set_insort_key)
    next
      case False
      with x have x': "owners st x = Some os'" by (simp add: st')
      have "a \<notin> set os'"
        using owners_ok_member [OF ok(2) x', of a] a(1) by auto
      then show ?thesis
        using owners_ok_distinct [OF ok(2) x'] owners_ok_member [OF ok(2) x']
        by (auto simp: st')
    qed
  qed
  moreover have "handles_owned st'"
    unfolding handles_owned_def
  proof (intro allI impI)
    fix x ob
    assume x: "heap st' x = Some ob"
    show "\<exists>os. owners st' (m_owner ob) = Some os \<and> x \<in> set os"
    proof (cases "x = a")
      case True
      with x show ?thesis by (auto simp: st' set_insort_key)
    next
      case False
      with x have "heap st x = Some ob" by (simp add: st')
      from handles_owned_owner [OF ok(3) this] os show ?thesis
        by (auto simp: st' set_insort_key)
    qed
  qed
  moreover have "blockers_ok st'"
    unfolding blockers_ok_def
  proof (intro allI impI)
    fix b bl
    assume "blockers st' b = Some bl"
    then have b: "blockers st b = Some bl" by (simp add: st')
    have "a \<notin> set (blocked_observers bl)"
      using blockers_ok_member [OF ok(4) b, of a] a(1) by auto
    then show "distinct (blocked_observers bl) \<and>
        (\<forall>h \<in> set (blocked_observers bl).
           \<exists>ob. heap st' h = Some ob \<and> m_subject ob = blocked_subject bl)"
      using blockers_ok_distinct [OF ok(4) b] blockers_ok_member [OF ok(4) b]
      by (auto simp: st')
  qed
  ultimately show ?thesis by (simp add: consistent_def)
qed

lemma consistent_connect_subject:
  "consistent st \<Longrightarrow> connect_subject st ow s1 s2 a = Inr (h, st') \<Longrightarrow> consistent st'"
  by (auto simp: connect_subject_def split: option.splits dest: consistent_connect_function)

lemma consistent_blocker_construct:
  assumes c: "consistent st" and r: "blocker_construct st b s = Inr st'"
  shows "consistent st'"
proof -
  from r obtain sub where sub: "subjects st s = Some sub"
    and st': "st' = st\<lparr>subjects := (subjects st)(s \<mapsto> sub\<lparr>m_observers := []\<rparr>),
        past_end := (past_end st)(s := []),
        blockers := (blockers st)
          (b \<mapsto> \<lparr>blocked_subject = s, blocked_observers = m_observers sub,
                blocked_past_end = past_end st s\<rparr>)\<rparr>"
    by (auto simp: blocker_construct_def split: option.splits)
  have ok: "subjects_ok st" "owners_ok st" "handles_owned st" "blockers_ok st"
    using c by (simp_all add: consistent_def)
  have "subjects_ok st'"
    using ok(1) by (auto simp: subjects_ok_def st')
  moreover have "owners_ok st'" "handles_owned st'"
    using ok(2,3) by (simp_all add: owners_ok_def handles_owned_def st')
  moreover have "blockers_ok st'"
    using ok(4) subjects_ok_distinct [OF ok(1) sub] subjects_ok_member [OF ok(1) sub]
    by (auto simp: blockers_ok_def st')
  ultimately show ?thesis by (simp add: consistent_def)
qed

lemma consistent_blocker_destroy:
  assumes c: "consistent st" and r: "blocker_destroy st b = Inr st'"
  shows "consistent st'"
proof -
  from r obtain bl sub where bl: "blockers st b = Some bl"
    and sub: "subjects st (blocked_subject bl) = Some sub"
    and st': "st' = st\<lparr>subjects := (subjects st)
          (blocked_subject bl \<mapsto> sub\<lparr>m_observers := blocked_observers bl\<rparr>),
        past_end := (past_end st)(blocked_subject bl := blocked_past_end bl),
        blockers := (blockers st)(b := None)\<rparr>"
    by (auto simp: blocker_destroy_def split: option.splits)
  have ok: "subjects_ok st" "owners_ok st" "handles_owned st" "blockers_ok st"
    using c by (simp_all add: consistent_def)
  have "subjects_ok st'"
    using ok(1) blockers_ok_distinct [OF ok(4) bl] blockers_ok_member [OF ok(4) bl]
    by (auto simp: subjects_ok_def st')
  moreover have "owners_ok st'" "handles_owned st'"
    using ok(2,3) by (simp_all add: owners_ok_def handles_owned_def st')
  moreover have "blockers_ok st'"
    using ok(4) by (auto simp: blockers_ok_def st')
  ultimately show ?thesis by (simp add: consistent_def)
qed

subsection \<open>A notification keeps the registries consistent\<close>

lemma keeps_Inl [simp]: "keeps st (Inl e)"
  by (simp add: keeps_def)

lemma keeps_refl [simp]: "keeps st (Inr st)"
  by (simp add: keeps_def)

lemma keeps_trace_left [simp]: "keeps (st\<lparr>trace := t\<rparr>) r = keeps st r"
  by (simp add: keeps_def split: sum.splits)

lemma keeps_trace_right [simp]: "keeps st (Inr (st\<lparr>trace := t\<rparr>))"
  by (simp add: keeps_def)

lemma keeps_trans: "keeps st (Inr st1) \<Longrightarrow> keeps st1 r \<Longrightarrow> keeps st r"
  by (cases r) (auto simp: keeps_def)

lemma keeps_disconnect:
  assumes "heap st h = Some ob" "m_function ob = Disconnecting n ow h'"
  shows "keeps st (disconnect st ow h')"
proof (cases "disconnect st ow h'")
  case (Inl e)
  then show ?thesis by simp
next
  case (Inr st')
  then have frame: "blockers st' = blockers st" "heap st' = (heap st)(h' := None)"
    by (auto simp: disconnect_def remove_from_subject_def owner_remove_observer_def
        delete_handle_def split: option.splits if_splits)
  have shrink: "\<forall>x ob. heap st' x = Some ob \<longrightarrow> heap st x = Some ob"
    by (simp add: frame(2))
  have "consistent st' \<and> safe_callbacks st'" if c: "consistent st" and s: "safe_callbacks st"
  proof
    from s assms have "\<not> held st h'" unfolding safe_callbacks_def by blast
    with c show "consistent st'" using Inr by (rule consistent_disconnect)
    show "safe_callbacks st'"
      using s shrink frame(1) unfolding safe_callbacks_def held_def by metis
  qed
  with frame(1) shrink show ?thesis
    by (simp add: keeps_def Inr)
qed

text \<open>
  A property of the outcome that holds of an error, of doing nothing and of recording a
  call, that chains, and that holds of the \<^verbatim>\<open>disconnect\<close> of a callable, holds of a
  notification.
\<close>

lemma notify_frame:
  assumes err: "\<And>st e. R st (Inl e)"
    and refl: "\<And>st. R st (Inr st)"
    and trans: "\<And>st st1 r. R st (Inr st1) \<Longrightarrow> R st1 r \<Longrightarrow> R st r"
    and tr: "\<And>st t. R st (Inr (st\<lparr>trace := t\<rparr>))"
    and disc: "\<And>st h ob n ow h'. heap st h = Some ob \<Longrightarrow>
      m_function ob = Disconnecting n ow h' \<Longrightarrow> R st (disconnect st ow h')"
  shows "R st (notify fuel st s args)"
    and "R st (notify_loop fuel st s i k args)"
    and "R st (observer_notify fuel st h args)"
proof (induction fuel st s args and fuel st s i k args and fuel st h args
    rule: notify_notify_loop_observer_notify.induct)
  case (1 st s args)
  show ?case by (simp add: err)
next
  case (2 fuel st s args)
  then show ?case by (simp add: err split: option.splits)
next
  case (3 fuel st s i args)
  show ?case by (simp add: refl)
next
  case (4 fuel st s i k args)
  show ?case
  proof (cases "subjects st s")
    case None
    then show ?thesis by (simp add: err)
  next
    case (Some sub)
    show ?thesis
    proof (cases "i < length (m_observers sub @ past_end st s)")
      case False
      with Some show ?thesis by (simp add: err)
    next
      case True
      let ?h = "(m_observers sub @ past_end st s) ! i"
      show ?thesis
      proof (cases "observer_notify fuel st ?h args")
        case (Inl e)
        with Some True show ?thesis by (simp add: err del: observer_notify.simps)
      next
        case (Inr st1)
        from "4.IH"(1) [OF Some True] Inr have k1: "R st (Inr st1)" by simp
        from "4.IH"(2) [OF Some True Inr] have "R st1 (notify_loop fuel st1 s (Suc i) k args)" .
        with k1 have "R st (notify_loop fuel st1 s (Suc i) k args)" by (rule trans)
        with Some True Inr show ?thesis by (simp del: observer_notify.simps)
      qed
    qed
  qed
next
  case (5 fuel st h args)
  show ?case
  proof (cases "heap st h")
    case None
    then show ?thesis by (simp add: err)
  next
    case (Some ob)
    show ?thesis
    proof (cases "get_first_n (function_arity (m_function ob)) args")
      case (Inl e)
      with Some show ?thesis by (simp add: err)
    next
      case (Inr args')
      let ?st = "st\<lparr>trace := trace st @ [(h, args')]\<rparr>"
      have t: "R st (Inr ?st)" by (rule tr)
      show ?thesis
      proof (cases "m_function ob")
        case (Plain n c)
        with Some Inr t show ?thesis by simp
      next
        case (Forward n s2)
        from "5.IH" [OF Some Inr Forward] have "R ?st (notify fuel ?st s2 args')" .
        with t have "R st (notify fuel ?st s2 args')" by (rule trans)
        with Some Inr Forward show ?thesis by simp
      next
        case (Disconnecting n ow h')
        have "heap ?st h = Some ob" using Some by simp
        from disc [OF this Disconnecting] have "R ?st (disconnect ?st ow h')" .
        with t have "R st (disconnect ?st ow h')" by (rule trans)
        with Some Inr Disconnecting show ?thesis by simp
      qed
    qed
  qed
qed

lemma notify_keeps: "keeps st (notify fuel st s args)"
  by (rule notify_frame [where R = keeps]) (auto intro: keeps_trans keeps_disconnect)

subsection \<open>The sequences list only handles that are owned\<close>

lemma notify_consistent:
  "consistent st \<Longrightarrow> safe_callbacks st \<Longrightarrow> notify fuel st s args = Inr st' \<Longrightarrow> consistent st'"
  using notify_keeps [of st fuel s args] by (simp add: keeps_def)

lemma reach_consistent: "reach True st \<Longrightarrow> consistent st"
proof (induction rule: reach.induct)
  case start
  show ?case by (rule consistent_empty_world)
next
  case (subject st s n st')
  then show ?case by (auto intro: consistent_new_subject)
next
  case (owner st ow st')
  then show ?case by (auto intro: consistent_new_owner)
next
  case (connect st ow s F a h st')
  then show ?case by (auto intro: consistent_connect_function)
next
  case (relay st ow s1 s2 a h st')
  then show ?case by (auto intro: consistent_connect_subject)
next
  case (disconnect st h ow st')
  then show ?case by (auto intro: consistent_disconnect)
next
  case (notify st fuel s args st')
  then show ?case by (auto intro: notify_consistent)
next
  case (destroy_owner st ow os st')
  then show ?case by (auto intro: consistent_destroy_owner)
next
  case (destroy_subject st s sub st')
  then show ?case by (auto intro: consistent_destroy_subject)
next
  case (block st b s st')
  then show ?case by (auto intro: consistent_blocker_construct)
next
  case (unblock st b st')
  then show ?case by (auto intro: consistent_blocker_destroy)
qed

lemma consistent_sequences_owned:
  assumes "consistent st"
  shows "sequences_owned st"
  unfolding sequences_owned_def
proof (intro allI impI)
  fix s sub h
  assume a: "subjects st s = Some sub \<and> h \<in> set (m_observers sub)"
  have ok: "subjects_ok st" "handles_owned st"
    using assms by (simp_all add: consistent_def)
  from a subjects_ok_member [OF ok(1)] obtain ob where "heap st h = Some ob" by blast
  from handles_owned_owner [OF ok(2) this] show "\<exists>ow os. owners st ow = Some os \<and> h \<in> set os"
    by blast
qed

lemma reach_blocked:
  "reach g
     \<lparr>subjects = [0 \<mapsto> \<lparr>sizeof_A = 1, m_observers = []\<rparr>],
      owners = [0 \<mapsto> [1]],
      heap = [1 \<mapsto> \<lparr>m_owner = 0, m_subject = 0, m_function = Plain 1 7\<rparr>],
      blockers = [0 \<mapsto> \<lparr>blocked_subject = 0, blocked_observers = [1], blocked_past_end = []\<rparr>],
      past_end = (\<lambda>s. []),
      trace = [],
      deleted = {#}\<rparr>"
proof -
  let ?w1 = "\<lparr>subjects = [0 \<mapsto> \<lparr>sizeof_A = 1, m_observers = []\<rparr>], owners = Map.empty,
      heap = Map.empty, blockers = Map.empty, past_end = (\<lambda>s. []), trace = [], deleted = {#}\<rparr>"
  let ?w2 = "\<lparr>subjects = [0 \<mapsto> \<lparr>sizeof_A = 1, m_observers = []\<rparr>], owners = [0 \<mapsto> []],
      heap = Map.empty, blockers = Map.empty, past_end = (\<lambda>s. []), trace = [], deleted = {#}\<rparr>"
  let ?w3 = "\<lparr>subjects = [0 \<mapsto> \<lparr>sizeof_A = 1, m_observers = [1]\<rparr>], owners = [0 \<mapsto> [1]],
      heap = [1 \<mapsto> \<lparr>m_owner = 0, m_subject = 0, m_function = Plain 1 7\<rparr>],
      blockers = Map.empty, past_end = (\<lambda>s. []), trace = [], deleted = {#}\<rparr>"
  let ?w4 = "\<lparr>subjects = [0 \<mapsto> \<lparr>sizeof_A = 1, m_observers = []\<rparr>],
      owners = [0 \<mapsto> [1]],
      heap = [1 \<mapsto> \<lparr>m_owner = 0, m_subject = 0, m_function = Plain 1 7\<rparr>],
      blockers = [0 \<mapsto> \<lparr>blocked_subject = 0, blocked_observers = [1], blocked_past_end = []\<rparr>],
      past_end = (\<lambda>s. []),
      trace = [], deleted = {#}\<rparr>"
  have "new_subject empty_world 0 1 = Inr ?w1"
    by (simp add: new_subject_def empty_world_def)
  with reach.start [of g] have r1: "reach g ?w1" by (rule reach.subject)
  have "new_owner ?w1 0 = Inr ?w2"
    by (simp add: new_owner_def)
  with r1 have r2: "reach g ?w2" by (rule reach.owner)
  have "connect_function ?w2 0 0 (Plain 1 7) 1 = Inr (1, ?w3)"
    by (simp add: connect_function_Inr)
  with r2 have r3: "reach g ?w3" by (rule reach.connect)
  have "blocker_construct ?w3 0 0 = Inr ?w4"
    by (simp add: blocker_construct_def)
  with r3 show "reach g ?w4" by (rule reach.block)
qed

text \<open>
  Claim C9, as amended. In every world that the public operations reach from the empty
  world, when no handle is released (by \<^verbatim>\<open>disconnect\<close>, by the destructor of its owner
  or of its subject, or by a callable that disconnects) while a blocker holds it in its
  saved sequence, every handle in a dispatch sequence is in the set of an owner; and
  the registries and the saved sequences are consistent. The claim as stated, for all
  reachable worlds, fails: a handle disconnected while a blocker holds it is back in the
  subject's sequence when the blocker is destroyed, owned by no one and deleted, and the
  next \<^verbatim>\<open>notify\<close> calls through it.
\<close>

theorem sequences_list_owned_handles:
  "reach True st \<Longrightarrow> sequences_owned st \<and> consistent st"
  by (simp add: reach_consistent consistent_sequences_owned)

theorem sequences_list_owned_handles_witness:
  "reach True unblocked_world \<and> sequences_owned unblocked_world \<and> consistent unblocked_world"
proof -
  let ?w4 = "\<lparr>subjects = [0 \<mapsto> \<lparr>sizeof_A = 1, m_observers = []\<rparr>],
      owners = [0 \<mapsto> [1]],
      heap = [1 \<mapsto> \<lparr>m_owner = 0, m_subject = 0, m_function = Plain 1 7\<rparr>],
      blockers = [0 \<mapsto> \<lparr>blocked_subject = 0, blocked_observers = [1], blocked_past_end = []\<rparr>],
      past_end = (\<lambda>s. []),
      trace = [], deleted = {#}\<rparr>"
  have "blocker_destroy ?w4 0 = Inr unblocked_world"
    by (simp add: blocker_destroy_def unblocked_world_def)
  with reach_blocked [of True] have r: "reach True unblocked_world" by (rule reach.unblock)
  with sequences_list_owned_handles [OF r] show ?thesis by simp
qed

theorem released_handle_in_sequence_counterexample:
  "reach False dangling_world \<and> \<not> sequences_owned dangling_world \<and>
   notify (Suc 0) dangling_world 0 [IntArg 7] = Inl UseAfterFree"
proof -
  let ?w4 = "\<lparr>subjects = [0 \<mapsto> \<lparr>sizeof_A = 1, m_observers = []\<rparr>],
      owners = [0 \<mapsto> [1]],
      heap = [1 \<mapsto> \<lparr>m_owner = 0, m_subject = 0, m_function = Plain 1 7\<rparr>],
      blockers = [0 \<mapsto> \<lparr>blocked_subject = 0, blocked_observers = [1], blocked_past_end = []\<rparr>],
      past_end = (\<lambda>s. []),
      trace = [], deleted = {#}\<rparr>"
  let ?w5 = "\<lparr>subjects = [0 \<mapsto> \<lparr>sizeof_A = 1, m_observers = []\<rparr>],
      owners = [0 \<mapsto> []],
      heap = Map.empty,
      blockers = [0 \<mapsto> \<lparr>blocked_subject = 0, blocked_observers = [1], blocked_past_end = []\<rparr>],
      past_end = (\<lambda>s. []),
      trace = [], deleted = {#1#}\<rparr>"
  have d: "disconnect ?w4 0 1 = Inr ?w5"
    by (simp add: disconnect_def remove_from_subject_def owner_remove_observer_def
        delete_handle_def remove_observer_def left_past_end_def)
  have r5: "reach False ?w5"
    by (rule reach.disconnect [OF reach_blocked [of False] _ d]) simp
  have "blocker_destroy ?w5 0 = Inr dangling_world"
    by (simp add: blocker_destroy_def dangling_world_def)
  with r5 have r: "reach False dangling_world" by (rule reach.unblock)
  have "\<not> sequences_owned dangling_world"
    by (auto simp: sequences_owned_def dangling_world_def)
  moreover have "notify (Suc 0) dangling_world 0 [IntArg 7] = Inl UseAfterFree"
    by (simp add: dangling_world_def)
  ultimately show ?thesis using r by simp
qed

subsection \<open>The loop stays inside the buffer\<close>

lemma inside_Inr_refl [simp]: "inside st (Inr st)"
  by (simp add: inside_def)

lemma inside_trace [simp]: "inside st (Inr (st\<lparr>trace := t\<rparr>))"
  by (simp add: inside_def)

lemma inside_trans: "inside st (Inr st1) \<Longrightarrow> inside st1 r \<Longrightarrow> inside st r"
  by (cases r) (fastforce simp: inside_def)+

lemma inside_remove_from_subject: "inside st (remove_from_subject st h)"
proof (cases "remove_from_subject st h")
  case (Inl e)
  then show ?thesis
    by (auto simp: inside_def remove_from_subject_def split: option.splits)
next
  case (Inr st')
  then obtain ob sub where ob: "heap st h = Some ob" and sub: "subjects st (m_subject ob) = Some sub"
    and st': "st' = st\<lparr>subjects := (subjects st)
        (m_subject ob \<mapsto> sub\<lparr>m_observers := remove_observer h (m_observers sub)\<rparr>),
        past_end := (past_end st)
          (m_subject ob := left_past_end h (m_observers sub) (past_end st (m_subject ob)))\<rparr>"
    by (auto simp: remove_from_subject_def split: option.splits)
  let ?v = "m_observers sub"
  have "length (remove_observer h ?v) + length (left_past_end h ?v p) = length ?v + length p"
    for p
  proof (cases "h \<in> set ?v")
    case False
    then have "find_if (\<lambda>o1. o1 = h) (rev ?v) = length ?v"
      using find_if_none [of "\<lambda>o1. o1 = h" "rev ?v"] by auto
    then show ?thesis
      by (simp add: remove_observer_def left_past_end_def)
  next
    case True
    then obtain ys zs where v: "?v = ys @ h # zs" "h \<notin> set zs"
      using split_list_last by fastforce
    then have "find_if (\<lambda>o1. o1 = h) (rev ?v) \<noteq> length ?v"
      using find_if_none [of "\<lambda>o1. o1 = h" "rev ?v"] by auto
    then have "left_past_end h ?v p = last ?v # p"
      by (simp add: left_past_end_def)
    moreover have "remove_observer h ?v = ys @ zs"
      using v remove_observer_last by simp
    ultimately show ?thesis using v(1) by simp
  qed
  then show ?thesis
    using sub by (auto simp: inside_def Inr st')
qed

lemma inside_disconnect: "inside st (disconnect st ow h)"
proof (cases "owners st ow")
  case None
  then show ?thesis by (simp add: disconnect_def inside_def)
next
  case (Some os)
  show ?thesis
  proof (cases "remove_from_subject st h")
    case (Inl e)
    with inside_remove_from_subject [of st h] Some show ?thesis
      by (simp add: disconnect_def inside_def)
  next
    case (Inr st1)
    with inside_remove_from_subject [of st h] have i1: "inside st (Inr st1)" by simp
    have "inside st1 (owner_remove_observer st1 ow h)"
      by (auto simp: inside_def owner_remove_observer_def delete_handle_def
          split: sum.splits option.splits)
    with i1 have "inside st (owner_remove_observer st1 ow h)" by (rule inside_trans)
    with Inr Some show ?thesis by (simp add: disconnect_def)
  qed
qed

lemma get_first_inside: "get_first n t = Inl e \<Longrightarrow> e \<noteq> OutsideBuffer"
  by (induction n arbitrary: e) (auto split: sum.splits if_splits)

lemma get_first_n_inside: "get_first_n n args = Inl e \<Longrightarrow> e \<noteq> OutsideBuffer"
  by (auto simp: get_first_n_def get_first_inside split: if_splits)

lemma notify_inside:
  "inside st (notify fuel st s args)"
  "(\<forall>sub. subjects st s = Some sub \<longrightarrow> i + k \<le> length (m_observers sub @ past_end st s)) \<longrightarrow>
     inside st (notify_loop fuel st s i k args)"
  "inside st (observer_notify fuel st h args)"
proof (induction fuel st s args and fuel st s i k args and fuel st h args
    rule: notify_notify_loop_observer_notify.induct)
  case (1 st s args)
  show ?case by (simp add: inside_def)
next
  case (2 fuel st s args)
  then show ?case by (simp add: inside_def split: option.splits)
next
  case (3 fuel st s i args)
  show ?case by simp
next
  case (4 fuel st s i k args)
  show ?case
  proof
    assume b: "\<forall>sub. subjects st s = Some sub \<longrightarrow>
      i + Suc k \<le> length (m_observers sub @ past_end st s)"
    show "inside st (notify_loop fuel st s i (Suc k) args)"
    proof (cases "subjects st s")
      case None
      then show ?thesis by (simp add: inside_def)
    next
      case (Some sub)
      with b have len: "i + Suc k \<le> length (m_observers sub @ past_end st s)" by simp
      then have True: "i < length (m_observers sub @ past_end st s)" by simp
      let ?h = "(m_observers sub @ past_end st s) ! i"
      from "4.IH"(1) [OF Some True] have o: "inside st (observer_notify fuel st ?h args)" .
      show ?thesis
      proof (cases "observer_notify fuel st ?h args")
        case (Inl e)
        with o Some True show ?thesis by (simp add: inside_def del: observer_notify.simps)
      next
        case (Inr st1)
        with o have i1: "inside st (Inr st1)" by simp
        then obtain sub1 where sub1: "subjects st1 s = Some sub1"
          "length (m_observers sub1) + length (past_end st1 s) =
           length (m_observers sub) + length (past_end st s)"
          using Some by (auto simp: inside_def)
        with len have "\<forall>sub. subjects st1 s = Some sub \<longrightarrow>
            Suc i + k \<le> length (m_observers sub @ past_end st1 s)"
          by simp
        with "4.IH"(2) [OF Some True Inr]
        have "inside st1 (notify_loop fuel st1 s (Suc i) k args)" by blast
        with i1 have "inside st (notify_loop fuel st1 s (Suc i) k args)" by (rule inside_trans)
        with Some True Inr show ?thesis by (simp del: observer_notify.simps)
      qed
    qed
  qed
next
  case (5 fuel st h args)
  show ?case
  proof (cases "heap st h")
    case None
    then show ?thesis by (simp add: inside_def)
  next
    case (Some ob)
    show ?thesis
    proof (cases "get_first_n (function_arity (m_function ob)) args")
      case (Inl e)
      with Some get_first_n_inside [OF Inl] show ?thesis by (simp add: inside_def)
    next
      case (Inr args')
      let ?st = "st\<lparr>trace := trace st @ [(h, args')]\<rparr>"
      have t: "inside st (Inr ?st)" by simp
      show ?thesis
      proof (cases "m_function ob")
        case (Plain n c)
        with Some Inr show ?thesis by simp
      next
        case (Forward n s2)
        from "5.IH" [OF Some Inr Forward] have "inside ?st (notify fuel ?st s2 args')" .
        with t have "inside st (notify fuel ?st s2 args')" by (rule inside_trans)
        with Some Inr Forward show ?thesis by simp
      next
        case (Disconnecting n ow h')
        from t inside_disconnect [of ?st ow h'] have "inside st (disconnect ?st ow h')"
          by (rule inside_trans)
        with Some Inr Disconnecting show ?thesis by simp
      qed
    qed
  qed
qed

lemma notify_inside_buffer: "notify fuel st s args \<noteq> Inl OutsideBuffer"
  using notify_inside(1) [of st fuel s args] by (auto simp: inside_def)

subsection \<open>A pass of \<^verbatim>\<open>notify\<close>\<close>

lemma undisturbed_Inl [simp]: "undisturbed s st (Inl e)"
  by (simp add: undisturbed_def)

lemma undisturbed_refl [simp]: "undisturbed s st (Inr st)"
  by (simp add: undisturbed_def)


lemma spared_trace [simp]: "spared (st\<lparr>trace := t\<rparr>) s = spared st s"
  by (simp add: spared_def)

lemma undisturbed_trace [simp]: "undisturbed s st (Inr (st\<lparr>trace := t\<rparr>))"
  by (simp add: undisturbed_def)









subsection \<open>Worlds reached without blockers\<close>

lemma well_formed_trace [simp]: "well_formed (st\<lparr>trace := t\<rparr>) = well_formed st"
  by (simp add: well_formed_def handles_attached_def)

lemma well_formed_empty_world: "well_formed empty_world"
  using consistent_empty_world
  by (simp add: well_formed_def handles_attached_def held_def empty_world_def)

lemma well_formed_new_subject:
  assumes "well_formed st" "new_subject st s n = Inr st'"
  shows "well_formed st'"
proof -
  from assms(2) have n: "subjects st s = None"
    and st': "st' = st\<lparr>subjects := (subjects st)(s \<mapsto> \<lparr>sizeof_A = n, m_observers = []\<rparr>),
                   past_end := (past_end st)(s := [])\<rparr>"
    by (auto simp: new_subject_def split: option.splits)
  have "handles_attached st'"
    unfolding handles_attached_def
  proof (intro allI impI)
    fix h ob
    assume "heap st' h = Some ob"
    then have "heap st h = Some ob" by (simp add: st')
    from handles_attached_subject [OF _ this] assms(1) obtain sub where
      sub: "subjects st (m_subject ob) = Some sub" "h \<in> set (m_observers sub)"
      by (auto simp: well_formed_def)
    with n have "m_subject ob \<noteq> s" by auto
    with sub show "\<exists>sub. subjects st' (m_subject ob) = Some sub \<and> h \<in> set (m_observers sub)"
      by (simp add: st')
  qed
  moreover have "\<forall>h. \<not> held st' h"
    using assms(1) by (simp add: well_formed_def held_def st')
  ultimately show ?thesis
    using assms consistent_new_subject [of st s n st'] by (simp add: well_formed_def)
qed

lemma well_formed_new_owner:
  assumes "well_formed st" "new_owner st ow = Inr st'"
  shows "well_formed st'"
proof -
  from assms(2) have st': "st' = st\<lparr>owners := (owners st)(ow \<mapsto> [])\<rparr>"
    by (auto simp: new_owner_def split: option.splits)
  have "handles_attached st'" "\<forall>h. \<not> held st' h"
    using assms(1) by (simp_all add: well_formed_def handles_attached_def held_def st')
  then show ?thesis
    using assms consistent_new_owner [of st ow st'] by (simp add: well_formed_def)
qed

lemma well_formed_connect_function:
  assumes "well_formed st" "connect_function st ow s F a = Inr (h, st')"
  shows "well_formed st'"
proof -
  let ?ob = "\<lparr>m_owner = ow, m_subject = s, m_function = F\<rparr>"
  from assms(2) obtain sub os where sub: "subjects st s = Some sub"
    and st': "st' = st\<lparr>heap := (heap st)(a \<mapsto> ?ob),
                   subjects := (subjects st)(s \<mapsto> sub\<lparr>m_observers := m_observers sub @ [a]\<rparr>),
                   owners := (owners st)(ow \<mapsto> insort a os),
                   past_end := (past_end st)(s := tl (past_end st s))\<rparr>"
    by (auto simp: connect_function_Inr)
  have "handles_attached st'"
    unfolding handles_attached_def
  proof (intro allI impI)
    fix x ob
    assume x: "heap st' x = Some ob"
    show "\<exists>sub. subjects st' (m_subject ob) = Some sub \<and> x \<in> set (m_observers sub)"
    proof (cases "x = a")
      case True
      with x show ?thesis by (auto simp: st')
    next
      case False
      with x have "heap st x = Some ob" by (simp add: st')
      from handles_attached_subject [OF _ this] assms(1) obtain sub' where
        "subjects st (m_subject ob) = Some sub'" "x \<in> set (m_observers sub')"
        by (auto simp: well_formed_def)
      with sub show ?thesis by (auto simp: st')
    qed
  qed
  moreover have "\<forall>h. \<not> held st' h"
    using assms(1) by (simp add: well_formed_def held_def st')
  ultimately show ?thesis
    using assms consistent_connect_function [of st ow s F a h st'] by (simp add: well_formed_def)
qed

lemma well_formed_connect_subject:
  "well_formed st \<Longrightarrow> connect_subject st ow s1 s2 a = Inr (h, st') \<Longrightarrow> well_formed st'"
  by (auto simp: connect_subject_def split: option.splits dest: well_formed_connect_function)

lemma well_formed_disconnect:
  assumes "well_formed st" "disconnect st ow h = Inr st'"
  shows "well_formed st'"
proof -
  have "\<exists>p. st' = (released [h] st)\<lparr>past_end := p\<rparr>"
    using assms by (intro disconnect_released) (simp_all add: well_formed_def consistent_def)
  then show ?thesis
    using well_formed_released [OF assms(1), of "[h]"] by auto
qed

lemma keeps_well_formed_trans:
  "keeps_well_formed st (Inr st1) \<Longrightarrow> keeps_well_formed st1 r \<Longrightarrow> keeps_well_formed st r"
  by (cases r) (auto simp: keeps_well_formed_def)

lemma notify_well_formed:
  assumes "well_formed st" "notify fuel st s args = Inr st'"
  shows "well_formed st'"
proof -
  have "keeps_well_formed st (notify fuel st s args)"
    by (rule notify_frame [where R = keeps_well_formed])
      (auto intro: keeps_well_formed_trans well_formed_disconnect
        simp: keeps_well_formed_def split: sum.splits)
  with assms show ?thesis by (simp add: keeps_well_formed_def)
qed

text \<open>
  Without blockers every world is well formed, so every owner and every subject of such
  a world meet the conditions of claim C1 as amended.
\<close>

lemma reach_unblocked_well_formed: "reach_unblocked st \<Longrightarrow> well_formed st"
proof (induction rule: reach_unblocked.induct)
  case start
  show ?case by (rule well_formed_empty_world)
next
  case (subject st s n st')
  then show ?case by (auto intro: well_formed_new_subject)
next
  case (owner st ow st')
  then show ?case by (auto intro: well_formed_new_owner)
next
  case (connect st ow s F a h st')
  then show ?case by (auto intro: well_formed_connect_function)
next
  case (relay st ow s1 s2 a h st')
  then show ?case by (auto intro: well_formed_connect_subject)
next
  case (disconnect st ow h st')
  then show ?case by (auto intro: well_formed_disconnect)
next
  case (notify st fuel s args st')
  then show ?case by (auto intro: notify_well_formed)
next
  case (destroy_owner st ow st')
  from destroy_owner.hyps(2) obtain os where "owners st ow = Some os"
    by (auto simp: destroy_owner_def split: option.splits)
  with destroy_owner show ?case by (auto intro: well_formed_destroy_owner)
next
  case (destroy_subject st s st')
  from destroy_subject.hyps(2) obtain sub where "subjects st s = Some sub"
    by (auto simp: destroy_subject_def split: option.splits)
  with destroy_subject show ?case by (auto intro: well_formed_destroy_subject)
qed

lemma well_formed_anchored:
  assumes "well_formed st" "owners st ow = Some os"
  shows "registries_ok st" and "anchored st s os"
proof -
  have ok: "owners_ok st" "handles_attached st"
    using assms(1) by (simp_all add: well_formed_def consistent_def)
  show "registries_ok st"
    using assms(1) by (simp add: well_formed_def consistent_registries_ok)
  show "anchored st s os"
    unfolding anchored_def
  proof
    fix h
    assume "h \<in> set os"
    with owners_ok_member [OF ok(1) assms(2)] obtain ob where ob: "heap st h = Some ob"
      by blast
    from handles_attached_subject [OF ok(2) ob] ob
    show "\<exists>ob sub. heap st h = Some ob \<and> subjects st (m_subject ob) = Some sub \<and>
        (m_subject ob = s \<longrightarrow> h \<in> set (m_observers sub))"
      by blast
  qed
qed

lemma reach_unblocked_anchored:
  "reach_unblocked st \<Longrightarrow> owners st ow = Some os \<Longrightarrow> registries_ok st \<and> anchored st s os"
  using well_formed_anchored [OF reach_unblocked_well_formed] by blast

end
